theory Spec2Isabelle
  imports Complex_Main "HOL-Library.Multiset" "HOL-Library.Log_Nat"
begin

section \<open>The energy-based QRS detector of pebm/ebm/FiducialPoints.py\<close>

text \<open>
  The development embeds \<^verbatim>\<open>calculate_jqrs\<close> and the part of the class
  \<^verbatim>\<open>FiducialPoints\<close> that reaches it. Samples, the sampling frequency and the two tuning
  parameters are real numbers, and every sample is a finite number. The function first
  writes the signal to a temporary 16-bit WFDB record and reads it back (lines 270 to 287,
  the \<^verbatim>\<open>wfdb\<close> library): \<open>calculate_jqrs\<close> below is the function from the array
  \<^verbatim>\<open>ecg\<close> that was read back, lines 288 to 373, and \<open>calculate_jqrs_call\<close> is the whole
  call, with the round trip as a parameter. In \<open>calculate_jqrs\<close> the arithmetic of the
  source is read exactly, without the rounding of IEEE doubles; the search back, whose
  comparisons depend on that rounding, is embedded a second time with the rounding made
  explicit. Each exception of Python, numpy and scipy is a value of type \<open>error\<close>.
\<close>

subsection \<open>Errors\<close>

datatype error = WrongParameter | ValueError | IndexError | ZeroDivisionError | OverflowError

definition bind_err :: "error + 'a \<Rightarrow> ('a \<Rightarrow> error + 'b) \<Rightarrow> error + 'b" where
  "bind_err m f = (case m of Inl e \<Rightarrow> Inl e | Inr x \<Rightarrow> f x)"

fun map_err :: "('a \<Rightarrow> error + 'b) \<Rightarrow> 'a list \<Rightarrow> error + 'b list" where
  "map_err f [] = Inr []"
| "map_err f (x # xs) = bind_err (f x) (\<lambda>y. bind_err (map_err f xs) (\<lambda>ys. Inr (y # ys)))"

fun fold_err :: "('a \<Rightarrow> 's \<Rightarrow> error + 's) \<Rightarrow> 'a list \<Rightarrow> 's \<Rightarrow> error + 's" where
  "fold_err f [] s = Inr s"
| "fold_err f (x # xs) s = bind_err (f x s) (fold_err f xs)"

subsection \<open>The numpy, scipy and Python operations the detector calls\<close>

text \<open>\<^verbatim>\<open>np.round\<close>: to the nearest integer, a tie to the even neighbour.\<close>

definition np_round :: "real \<Rightarrow> int" where
  "np_round x = (let f = \<lfloor>x\<rfloor>; d = x - of_int f in
     if d < 1 / 2 then f else if 1 / 2 < d then f + 1 else if even f then f else f + 1)"

text \<open>\<^verbatim>\<open>np.diff\<close>: the differences of neighbours, one element shorter.\<close>

fun np_diff :: "'a::minus list \<Rightarrow> 'a list" where
  "np_diff (x # y # xs) = (y - x) # np_diff (y # xs)"
| "np_diff xs = []"

definition np_square :: "real list \<Rightarrow> real list" where
  "np_square xs = map (\<lambda>x. x * x) xs"

text \<open>\<^verbatim>\<open>np.ones(n, dtype=int)\<close>: a negative dimension raises \<^verbatim>\<open>ValueError\<close>.\<close>

definition np_ones :: "int \<Rightarrow> error + int list" where
  "np_ones n = (if n < 0 then Inl ValueError else Inr (replicate (nat n) 1))"

text \<open>
  \<^verbatim>\<open>scipy.signal.lfilter(b, 1, x)\<close>: with the denominator 1 the filter is the convolution
  of \<open>b\<close> and \<open>x\<close> cut to the length of \<open>x\<close>, computed by \<^verbatim>\<open>np.convolve\<close>, which raises
  \<^verbatim>\<open>ValueError\<close> when either array is empty.
\<close>

definition lfilter :: "int list \<Rightarrow> real list \<Rightarrow> error + real list" where
  "lfilter b x = (if b = [] \<or> x = [] then Inl ValueError
     else Inr (map (\<lambda>k. sum_list (map (\<lambda>j. of_int (b ! j) * x ! (k - j))
                                        [0..<min (Suc k) (length b)])) [0..<length x]))"

text \<open>\<^verbatim>\<open>np.roll(xs, s)\<close>: the element at \<open>i\<close> moves to \<open>(i + s) mod n\<close>.\<close>

definition np_roll :: "'a list \<Rightarrow> int \<Rightarrow> 'a list" where
  "np_roll xs s = map (\<lambda>i. xs ! nat ((int i - s) mod int (length xs))) [0..<length xs]"

text \<open>\<^verbatim>\<open>np.where(bs)[0]\<close>: the indices of the true entries, ascending.\<close>

fun np_nonzero :: "nat \<Rightarrow> bool list \<Rightarrow> nat list" where
  "np_nonzero k [] = []"
| "np_nonzero k (b # bs) = (if b then k # np_nonzero (Suc k) bs else np_nonzero (Suc k) bs)"

definition np_where :: "bool list \<Rightarrow> nat list" where
  "np_where bs = np_nonzero 0 bs"

text \<open>
  \<^verbatim>\<open>np.delete(xs, idx)\<close> with an array of indices: an index out of bounds raises
  \<^verbatim>\<open>IndexError\<close> (numpy 1.19 and later; older versions ignored it with a warning).
\<close>

definition np_delete :: "'a list \<Rightarrow> nat list \<Rightarrow> error + 'a list" where
  "np_delete xs idx = (if list_all (\<lambda>i. i < length xs) idx
     then Inr (map (\<lambda>k. xs ! k) (filter (\<lambda>k. k \<notin> set idx) [0..<length xs]))
     else Inl IndexError)"

text \<open>\<^verbatim>\<open>np.delete(xs, i)\<close> with one index.\<close>

definition np_delete1 :: "'a list \<Rightarrow> nat \<Rightarrow> error + 'a list" where
  "np_delete1 xs i = (if i < length xs then Inr (take i xs @ drop (Suc i) xs) else Inl IndexError)"

text \<open>\<open>xs[i]\<close> for an index that is not negative, and the store \<open>xs[i] = v\<close>.\<close>

definition py_index :: "'a list \<Rightarrow> nat \<Rightarrow> error + 'a" where
  "py_index xs i = (if i < length xs then Inr (xs ! i) else Inl IndexError)"

definition py_store :: "'a list \<Rightarrow> nat \<Rightarrow> 'a \<Rightarrow> error + 'a list" where
  "py_store xs i v = (if i < length xs then Inr (xs[i := v]) else Inl IndexError)"

text \<open>\<open>xs[idx]\<close> with an array of indices.\<close>

definition np_take :: "'a list \<Rightarrow> nat list \<Rightarrow> error + 'a list" where
  "np_take xs idx = map_err (py_index xs) idx"

text \<open>The slice \<open>xs[a:b]\<close>, clipped to the array as Python does.\<close>

definition py_slice :: "'a list \<Rightarrow> nat \<Rightarrow> nat \<Rightarrow> 'a list" where
  "py_slice xs a b = take (b - a) (drop a xs)"

text \<open>
  \<^verbatim>\<open>np.max\<close>, \<^verbatim>\<open>np.min\<close>, \<^verbatim>\<open>np.argmax\<close>, \<^verbatim>\<open>np.argmin\<close>: \<^verbatim>\<open>ValueError\<close> on an empty
  array; the index is that of the first occurrence of the extremum.
\<close>

definition first_index :: "'a \<Rightarrow> 'a list \<Rightarrow> nat" where
  "first_index v xs = length (takeWhile (\<lambda>x. x \<noteq> v) xs)"

definition np_max :: "real list \<Rightarrow> error + real" where
  "np_max xs = (if xs = [] then Inl ValueError else Inr (Max (set xs)))"

definition np_min :: "real list \<Rightarrow> error + real" where
  "np_min xs = (if xs = [] then Inl ValueError else Inr (Min (set xs)))"

definition np_argmax :: "real list \<Rightarrow> error + nat" where
  "np_argmax xs = (if xs = [] then Inl ValueError else Inr (first_index (Max (set xs)) xs))"

definition np_argmin :: "real list \<Rightarrow> error + nat" where
  "np_argmin xs = (if xs = [] then Inl ValueError else Inr (first_index (Min (set xs)) xs))"

text \<open>
  \<^verbatim>\<open>np.median\<close>: the middle of the sorted values, the mean of the two middle ones for an
  even count, and NaN (here \<open>None\<close>) for an empty array, which is a warning and no exception.
\<close>

definition np_median :: "real list \<Rightarrow> real option" where
  "np_median xs = (let s = sort xs; n = length s in
     if n = 0 then None
     else if odd n then Some (s ! (n div 2))
     else Some ((s ! (n div 2 - 1) + s ! (n div 2)) / 2))"

text \<open>A comparison with NaN is false.\<close>

definition gt_nan :: "real \<Rightarrow> real option \<Rightarrow> bool" where
  "gt_nan x m = (case m of None \<Rightarrow> False | Some v \<Rightarrow> v < x)"

definition nan_gt :: "real option \<Rightarrow> real \<Rightarrow> bool" where
  "nan_gt m x = (case m of None \<Rightarrow> False | Some v \<Rightarrow> x < v)"

definition nan_mult :: "real \<Rightarrow> real option \<Rightarrow> real option" where
  "nan_mult c m = map_option (\<lambda>v. c * v) m"

text \<open>\<^verbatim>\<open>np.arange(start, stop, step)\<close>.\<close>

definition np_arange :: "real \<Rightarrow> real \<Rightarrow> real \<Rightarrow> real list" where
  "np_arange start stop step =
     map (\<lambda>i. start + real i * step) [0..<nat \<lceil>(stop - start) / step\<rceil>]"

text \<open>Python's \<open>1 / fs\<close>.\<close>

definition py_inverse :: "real \<Rightarrow> error + real" where
  "py_inverse fs = (if fs = 0 then Inl ZeroDivisionError else Inr (1 / fs))"

subsection \<open>calculate_jqrs, stage by stage\<close>

text \<open>Lines 288 to 298: differentiate, square, integrate, remove the filter delay.\<close>

definition INT_NB_COEFF :: "real \<Rightarrow> int" where
  "INT_NB_COEFF fs = np_round (7 * fs / 256)"

definition dffecg :: "real list \<Rightarrow> real list" where
  "dffecg ecg = np_diff ecg"

definition sqrecg :: "real list \<Rightarrow> real list" where
  "sqrecg ecg = np_square (dffecg ecg)"

definition intecg :: "real list \<Rightarrow> real \<Rightarrow> error + real list" where
  "intecg ecg fs = bind_err (np_ones (INT_NB_COEFF fs)) (\<lambda>b. lfilter b (sqrecg ecg))"

definition delay :: "real \<Rightarrow> int" where
  "delay fs = \<lceil>real_of_int (INT_NB_COEFF fs) / 2\<rceil>"

definition mdfint :: "real list \<Rightarrow> real \<Rightarrow> error + real list" where
  "mdfint ecg fs = bind_err (intecg ecg fs) (\<lambda>y. Inr (np_roll y (- delay fs)))"

text \<open>
  Lines 300 to 306. \<^verbatim>\<open>mdfint_temp_\<close> is computed and never read: the sorted array is the
  whole envelope.
\<close>

definition sentinel :: real where
  "sentinel = - 32768"

definition mdfint_temp_del :: "real list \<Rightarrow> real list \<Rightarrow> error + real list" where
  "mdfint_temp_del ecg m = np_delete m (np_where (map (\<lambda>x. x = sentinel) ecg))"

definition ind_xs :: "nat \<Rightarrow> nat" where
  "ind_xs n = nat (np_round (98 / 100 * real n))"

definition en_thres :: "real list \<Rightarrow> real list \<Rightarrow> error + real" where
  "en_thres ecg m =
     bind_err (mdfint_temp_del ecg m) (\<lambda>unused.
       let xs = sort m in py_index xs (ind_xs (length xs)))"

definition poss_reg :: "real list \<Rightarrow> real \<Rightarrow> real \<Rightarrow> bool list" where
  "poss_reg m thr en = map (\<lambda>v. thr * en < v) m"

text \<open>Lines 308 to 327: the time axis and the search back.\<close>

definition tm :: "real \<Rightarrow> nat \<Rightarrow> error + real list" where
  "tm fs n = bind_err (py_inverse fs) (\<lambda>step.
     Inr (np_arange step ((real n + 1) / fs) step))"

definition RRv :: "real list \<Rightarrow> nat list \<Rightarrow> error + real list" where
  "RRv t indAboveThreshold = bind_err (np_take t indAboveThreshold) (\<lambda>ts. Inr (np_diff ts))"

definition medRRv :: "real list \<Rightarrow> real option" where
  "medRRv rr = np_median (filter (\<lambda>r. 1 / 100 < r) rr)"

definition indMissedBeat :: "real list \<Rightarrow> nat list" where
  "indMissedBeat rr = np_where (map (\<lambda>r. gt_nan r (nan_mult (3 / 2) (medRRv rr))) rr)"

definition rescan :: "real list \<Rightarrow> real \<Rightarrow> real \<Rightarrow> nat \<times> nat \<Rightarrow> bool list \<Rightarrow> bool list" where
  "rescan m thr en se p =
     map (\<lambda>k. if fst se \<le> k \<and> k < snd se then 1 / 4 * thr * en < m ! k else p ! k)
         [0..<length p]"

definition search_back :: "real list \<Rightarrow> real \<Rightarrow> real \<Rightarrow> real \<Rightarrow> nat \<Rightarrow> error + bool list" where
  "search_back m fs thr en n =
     (let p = poss_reg m thr en in
      bind_err (tm fs n) (\<lambda>t.
      let indAboveThreshold = np_where p in
      bind_err (RRv t indAboveThreshold) (\<lambda>rr.
      let missed = indMissedBeat rr in
      bind_err (np_take indAboveThreshold missed) (\<lambda>indStart.
      bind_err (np_take indAboveThreshold (map Suc missed)) (\<lambda>indEnd.
      Inr (fold (rescan m thr en)
             (map (\<lambda>i. (indStart ! i, indEnd ! i)) [0..<length indStart]) p))))))"

text \<open>Lines 329 to 334: the boundaries of the runs of the mask.\<close>

definition left :: "bool list \<Rightarrow> nat list" where
  "left p = np_where (map (\<lambda>d. d = 1) (np_diff ((0::int) # map of_bool p)))"

definition right :: "bool list \<Rightarrow> nat list" where
  "right p = np_where (map (\<lambda>d. d = - 1) (np_diff (map of_bool p @ [0::int])))"

text \<open>
  Lines 335 to 340. \<open>len(left < 30 * fs)\<close> is the length of the array of comparisons,
  that is the number of runs.
\<close>

definition nb_s :: "nat list \<Rightarrow> real \<Rightarrow> nat" where
  "nb_s l fs = length (map (\<lambda>x. real x < 30 * fs) l)"

definition loc :: "real list \<Rightarrow> nat list \<Rightarrow> nat list \<Rightarrow> real \<Rightarrow> error + nat list" where
  "loc ecg l r fs = map_err (\<lambda>j.
       bind_err (py_index l j) (\<lambda>lj.
       bind_err (py_index r j) (\<lambda>rj.
       bind_err (np_argmax (map abs (py_slice ecg lj (rj + 1)))) (\<lambda>a.
       Inr (a + lj))))) [0..<nb_s l fs]"

definition sign :: "real list \<Rightarrow> nat list \<Rightarrow> error + real option" where
  "sign ecg lc = bind_err (np_take ecg lc) (\<lambda>vs. Inr (np_median vs))"

text \<open>Lines 342 to 372: one candidate for each run, and the refractory period.\<close>

record peaks =
  maxval :: "real list"
  maxloc :: "nat list"
  compt :: nat

definition too_close :: "real \<Rightarrow> real \<Rightarrow> nat list \<Rightarrow> nat \<Rightarrow> bool" where
  "too_close fs rp ml c = (real (ml ! c) - real (ml ! (c - 1)) < fs * rp)"

definition refractory :: "real \<Rightarrow> real \<Rightarrow> real list \<Rightarrow> nat list \<Rightarrow> nat \<Rightarrow> error + peaks" where
  "refractory fs rp mv ml c =
     (if 0 < c then
        if too_close fs rp ml c \<and> \<bar>mv ! c\<bar> < \<bar>mv ! (c - 1)\<bar> then
          bind_err (np_delete1 mv c) (\<lambda>mv'.
          bind_err (np_delete1 ml c) (\<lambda>ml'.
          Inr \<lparr>maxval = mv', maxloc = ml', compt = c\<rparr>))
        else if too_close fs rp ml c \<and> \<bar>mv ! (c - 1)\<bar> \<le> \<bar>mv ! c\<bar> then
          bind_err (np_delete1 mv (c - 1)) (\<lambda>mv'.
          bind_err (np_delete1 ml (c - 1)) (\<lambda>ml'.
          Inr \<lparr>maxval = mv', maxloc = ml', compt = c\<rparr>))
        else Inr \<lparr>maxval = mv, maxloc = ml, compt = c + 1\<rparr>
      else Inr \<lparr>maxval = mv, maxloc = ml, compt = c + 1\<rparr>)"

definition candidate :: "real option \<Rightarrow> real list \<Rightarrow> error + real \<times> nat" where
  "candidate sg seg =
     (if nan_gt sg 0 then
        bind_err (np_max seg) (\<lambda>v. bind_err (np_argmax seg) (\<lambda>a. Inr (v, a)))
      else
        bind_err (np_min seg) (\<lambda>v. bind_err (np_argmin seg) (\<lambda>a. Inr (v, a))))"

definition peak_step ::
  "real list \<Rightarrow> real \<Rightarrow> real \<Rightarrow> real option \<Rightarrow> nat list \<Rightarrow> nat list \<Rightarrow> nat \<Rightarrow> peaks \<Rightarrow> error + peaks" where
  "peak_step ecg fs rp sg l r j st =
     bind_err (py_index l j) (\<lambda>lj.
     bind_err (py_index r j) (\<lambda>rj.
     bind_err (candidate sg (py_slice ecg lj (rj + 1))) (\<lambda>va.
     bind_err (py_store (maxval st) (compt st) (fst va)) (\<lambda>mv.
     bind_err (py_store (maxloc st) (compt st) (snd va)) (\<lambda>ml0.
     refractory fs rp mv (ml0[compt st := ml0 ! compt st + lj]) (compt st))))))"

definition peak_loop ::
  "real list \<Rightarrow> real \<Rightarrow> real \<Rightarrow> real option \<Rightarrow> nat list \<Rightarrow> nat list \<Rightarrow> error + peaks" where
  "peak_loop ecg fs rp sg l r =
     (let NB_PEAKS = length l in
      fold_err (peak_step ecg fs rp sg l r) [0..<NB_PEAKS]
        \<lparr>maxval = replicate NB_PEAKS 0, maxloc = replicate NB_PEAKS 0, compt = 0\<rparr>)"

text \<open>The whole function, from the array read back to \<open>qrs_pos\<close>.\<close>

definition calculate_jqrs :: "real list \<Rightarrow> real \<Rightarrow> real \<Rightarrow> real \<Rightarrow> error + nat list" where
  "calculate_jqrs ecg fs thr rp =
     bind_err (mdfint ecg fs) (\<lambda>m.
     bind_err (en_thres ecg m) (\<lambda>en.
     bind_err (search_back m fs thr en (length ecg)) (\<lambda>p.
     bind_err (loc ecg (left p) (right p) fs) (\<lambda>lc.
     bind_err (sign ecg lc) (\<lambda>sg.
     bind_err (peak_loop ecg fs rp sg (left p) (right p)) (\<lambda>st.
     Inr (maxloc st)))))))"

text \<open>
  The call as a whole. Lines 270 to 287 convert \<^verbatim>\<open>fs\<close> with \<^verbatim>\<open>np.uint\<close>, write the signal
  to a 16-bit WFDB record with \<^verbatim>\<open>wfdb.wrsamp\<close> and read it back with
  \<^verbatim>\<open>wfdb.rdrecord\<close>. These library calls are the parameter \<open>read_back\<close>: from the
  signal and \<^verbatim>\<open>fs\<close> it gives the exception that was raised or the array \<^verbatim>\<open>ecg\<close>. The
  lines after it use the \<^verbatim>\<open>fs\<close> of the caller.
\<close>

definition calculate_jqrs_call ::
  "(real list \<Rightarrow> real \<Rightarrow> error + real list) \<Rightarrow> real list \<Rightarrow> real \<Rightarrow> real \<Rightarrow> real
     \<Rightarrow> error + nat list" where
  "calculate_jqrs_call read_back signal fs thr rp =
     bind_err (read_back signal fs) (\<lambda>ecg. calculate_jqrs ecg fs thr rp)"

subsection \<open>The search back in double precision\<close>

text \<open>
  Lines 307 to 327 once more, with the rounding of the floating-point operations made
  explicit. A double is a real number; \<open>rnd\<close> is the rounding of the exact result of one
  operation to a double, and \<open>t\<close> is the array of times that \<^verbatim>\<open>np.arange\<close> returned in
  line 308, whatever its entries and its length. The literal \<^verbatim>\<open>0.01\<close> is the double
  nearest to 1/100, which is \<open>5764607523034235 / 2 ^ 59\<close>; \<^verbatim>\<open>1.5\<close> and \<^verbatim>\<open>0.25\<close> are
  doubles. \<^verbatim>\<open>np.median\<close> of an even count is \<^verbatim>\<open>np.mean\<close> of the two middle values:
  their sum, rounded, divided by 2, rounded. Python reads \<^verbatim>\<open>0.25 * thr * en_thres\<close> from
  the left.
\<close>

definition double_0_01 :: real where
  "double_0_01 = 5764607523034235 / 2 ^ 59"

text \<open>
  The rounding of IEEE double precision, to the nearest number of 53 significant bits and
  a tie to the even significand, with the exponent unbounded, that is without overflow
  and underflow. \<open>ilog2 x\<close> is the binary exponent of a positive number, the \<open>e\<close> with
  \<open>2 powi e \<le> x < 2 powi (e + 1)\<close>.
\<close>

definition ilog2 :: "real \<Rightarrow> int" where
  "ilog2 x = (if 1 \<le> x then bitlen \<lfloor>x\<rfloor> - 1 else - bitlen (\<lceil>1 / x\<rceil> - 1))"

definition round_double :: "real \<Rightarrow> real" where
  "round_double x = (if x = 0 then 0 else
     let u = 2 powi (ilog2 \<bar>x\<bar> - 52) in real_of_int (np_round (x / u)) * u)"

definition np_median_rounded :: "(real \<Rightarrow> real) \<Rightarrow> real list \<Rightarrow> real option" where
  "np_median_rounded rnd xs = (let s = sort xs; n = length s in
     if n = 0 then None
     else if odd n then Some (s ! (n div 2))
     else Some (rnd (rnd (s ! (n div 2 - 1) + s ! (n div 2)) / 2)))"

definition poss_reg_rounded :: "(real \<Rightarrow> real) \<Rightarrow> real list \<Rightarrow> real \<Rightarrow> real \<Rightarrow> bool list" where
  "poss_reg_rounded rnd m thr en = map (\<lambda>v. rnd (thr * en) < v) m"

definition RRv_rounded :: "(real \<Rightarrow> real) \<Rightarrow> real list \<Rightarrow> nat list \<Rightarrow> error + real list" where
  "RRv_rounded rnd t indAboveThreshold =
     bind_err (np_take t indAboveThreshold) (\<lambda>ts. Inr (map rnd (np_diff ts)))"

definition medRRv_rounded :: "(real \<Rightarrow> real) \<Rightarrow> real list \<Rightarrow> real option" where
  "medRRv_rounded rnd rr = np_median_rounded rnd (filter (\<lambda>r. double_0_01 < r) rr)"

definition indMissedBeat_rounded :: "(real \<Rightarrow> real) \<Rightarrow> real list \<Rightarrow> nat list" where
  "indMissedBeat_rounded rnd rr =
     np_where (map (\<lambda>r. gt_nan r (map_option (\<lambda>med. rnd (3 / 2 * med)) (medRRv_rounded rnd rr)))
                   rr)"

definition rescan_rounded ::
  "(real \<Rightarrow> real) \<Rightarrow> real list \<Rightarrow> real \<Rightarrow> real \<Rightarrow> nat \<times> nat \<Rightarrow> bool list \<Rightarrow> bool list" where
  "rescan_rounded rnd m thr en se p =
     map (\<lambda>k. if fst se \<le> k \<and> k < snd se then rnd (rnd (1 / 4 * thr) * en) < m ! k else p ! k)
         [0..<length p]"

definition search_back_rounded ::
  "(real \<Rightarrow> real) \<Rightarrow> real list \<Rightarrow> real list \<Rightarrow> real \<Rightarrow> real \<Rightarrow> error + bool list" where
  "search_back_rounded rnd t m thr en =
     (let p = poss_reg_rounded rnd m thr en;
          indAboveThreshold = np_where p in
      bind_err (RRv_rounded rnd t indAboveThreshold) (\<lambda>rr.
      let missed = indMissedBeat_rounded rnd rr in
      bind_err (np_take indAboveThreshold missed) (\<lambda>indStart.
      bind_err (np_take indAboveThreshold (map Suc missed)) (\<lambda>indEnd.
      Inr (fold (rescan_rounded rnd m thr en)
             (map (\<lambda>i. (indStart ! i, indEnd ! i)) [0..<length indStart]) p)))))"

subsection \<open>The class FiducialPoints, for one lead\<close>

text \<open>
  The constructor (lines 15 to 34) and the method \<^verbatim>\<open>jqrs\<close> (lines 173 to 195) for a signal
  of one dimension. The helper \<^verbatim>\<open>_check_shape_\<close> of \<^verbatim>\<open>pebm._ErrorHandler\<close> is not part of
  the sources at hand and is a parameter: it returns the exception it raises, if any.
\<close>

record FiducialPoints =
  self_signal :: "real list"
  self_fs :: real
  self_peaks :: "nat list"
  self_n_pools :: nat

definition FiducialPoints_init ::
  "(real list \<Rightarrow> real \<Rightarrow> error option) \<Rightarrow> real list \<Rightarrow> real \<Rightarrow> nat option
     \<Rightarrow> error + FiducialPoints" where
  "FiducialPoints_init check_shape signal fs n_pools =
     (if fs \<le> 0 then Inl WrongParameter
      else case check_shape signal fs of
        Some e \<Rightarrow> Inl e
      | None \<Rightarrow> Inr \<lparr>self_signal = signal, self_fs = fs, self_peaks = [],
                      self_n_pools = (case n_pools of None \<Rightarrow> 1 | Some n \<Rightarrow> n)\<rparr>)"

definition jqrs ::
  "(real list \<Rightarrow> real \<Rightarrow> error + real list) \<Rightarrow> FiducialPoints
     \<Rightarrow> error + FiducialPoints \<times> nat list" where
  "jqrs read_back self =
     (let thr = 8 / 10; rp = 25 / 100 in
      bind_err (calculate_jqrs_call read_back (self_signal self) (self_fs self) thr rp) (\<lambda>peaks.
      Inr (self\<lparr>self_peaks := peaks\<rparr>, peaks)))"

subsection \<open>Notions derived from the code, used to state its properties\<close>

text \<open>
  The intervals between neighbouring indices above the threshold, in seconds, and the gaps
  that line 319 flags, each as the pair of its two bounding indices.
\<close>

definition RR_of :: "real \<Rightarrow> nat list \<Rightarrow> real list" where
  "RR_of fs ind = np_diff (map (\<lambda>i. (real i + 1) / fs) ind)"

definition flagged_gaps :: "real list \<Rightarrow> real \<Rightarrow> real \<Rightarrow> real \<Rightarrow> (nat \<times> nat) list" where
  "flagged_gaps m fs thr en =
     (let ind = np_where (poss_reg m thr en)
      in map (\<lambda>j. (ind ! j, ind ! Suc j)) (indMissedBeat (RR_of fs ind)))"

text \<open>The same two notions for the search back in double precision.\<close>

definition RR_of_rounded :: "(real \<Rightarrow> real) \<Rightarrow> real list \<Rightarrow> nat list \<Rightarrow> real list" where
  "RR_of_rounded rnd t ind = map rnd (np_diff (map (\<lambda>i. t ! i) ind))"

definition flagged_gaps_rounded ::
  "(real \<Rightarrow> real) \<Rightarrow> real list \<Rightarrow> real list \<Rightarrow> real \<Rightarrow> real \<Rightarrow> (nat \<times> nat) list" where
  "flagged_gaps_rounded rnd t m thr en =
     (let ind = np_where (poss_reg_rounded rnd m thr en)
      in map (\<lambda>j. (ind ! j, ind ! Suc j)) (indMissedBeat_rounded rnd (RR_of_rounded rnd t ind)))"

text \<open>
  The maximal runs of true entries of a mask, each as the closed interval of its first and
  last index, found in one pass from the left: the first argument is the start of the run
  that is open at position \<open>k\<close>, if any.
\<close>

fun scan_runs :: "nat option \<Rightarrow> nat \<Rightarrow> bool list \<Rightarrow> (nat \<times> nat) list" where
  "scan_runs None k [] = []"
| "scan_runs (Some l) k [] = [(l, k - 1)]"
| "scan_runs None k (b # p) =
     (if b then scan_runs (Some k) (Suc k) p else scan_runs None (Suc k) p)"
| "scan_runs (Some l) k (b # p) =
     (if b then scan_runs (Some l) (Suc k) p else (l, k - 1) # scan_runs None (Suc k) p)"

definition runs :: "bool list \<Rightarrow> (nat \<times> nat) list" where
  "runs p = scan_runs None 0 p"

text \<open>The mask after the search back, when no library call fails.\<close>

definition final_mask :: "real list \<Rightarrow> real \<Rightarrow> real \<Rightarrow> real \<Rightarrow> bool list" where
  "final_mask m fs thr en = fold (rescan m thr en) (flagged_gaps m fs thr en) (poss_reg m thr en)"

text \<open>The runs of the final mask.\<close>

definition regions :: "real list \<Rightarrow> real \<Rightarrow> real \<Rightarrow> real \<Rightarrow> (nat \<times> nat) list" where
  "regions m fs thr en = runs (final_mask m fs thr en)"

text \<open>
  The position of the sample of largest absolute amplitude of each run, and the median of
  the samples at these positions (lines 336 to 340).
\<close>

definition loc_of :: "real list \<Rightarrow> (nat \<times> nat) list \<Rightarrow> nat list" where
  "loc_of ecg rs = map (\<lambda>g. first_index (Max (set (map abs (py_slice ecg (fst g) (snd g + 1)))))
                              (map abs (py_slice ecg (fst g) (snd g + 1))) + fst g) rs"

definition sign_of :: "real list \<Rightarrow> (nat \<times> nat) list \<Rightarrow> real option" where
  "sign_of ecg rs = np_median (map (\<lambda>i. ecg ! i) (loc_of ecg rs))"

text \<open>
  The candidate of a run: its largest sample when the polarity is positive, its smallest
  sample otherwise, with the position of the first occurrence in the signal.
\<close>

definition extremum :: "real option \<Rightarrow> real list \<Rightarrow> real \<times> nat" where
  "extremum sg seg =
     (if nan_gt sg 0 then (Max (set seg), first_index (Max (set seg)) seg)
      else (Min (set seg), first_index (Min (set seg)) seg))"

definition candidates :: "real list \<Rightarrow> real option \<Rightarrow> (nat \<times> nat) list \<Rightarrow> (real \<times> nat) list" where
  "candidates ecg sg rs =
     map (\<lambda>g. (fst (extremum sg (py_slice ecg (fst g) (snd g + 1))),
               snd (extremum sg (py_slice ecg (fst g) (snd g + 1))) + fst g)) rs"

text \<open>
  The refractory rule on a growing sequence of retained peaks, as section 9 of the
  specification words it: a new candidate is appended, or dropped, or takes the place of
  the last retained peak.
\<close>

definition push :: "real \<Rightarrow> real \<Rightarrow> real \<times> nat \<Rightarrow> (real \<times> nat) list \<Rightarrow> (real \<times> nat) list" where
  "push fs rp c rs =
     (if rs = [] then [c]
      else if real (snd c) - real (snd (last rs)) < fs * rp then
        (if \<bar>fst c\<bar> < \<bar>fst (last rs)\<bar> then rs else butlast rs @ [c])
      else rs @ [c])"

definition consolidate :: "real \<Rightarrow> real \<Rightarrow> (real \<times> nat) list \<Rightarrow> (real \<times> nat) list" where
  "consolidate fs rp cs = fold (push fs rp) cs []"

text \<open>The peaks retained so far by the loop of lines 346 to 372.\<close>

definition retained :: "peaks \<Rightarrow> (real \<times> nat) list" where
  "retained st = zip (take (compt st) (maxval st)) (take (compt st) (maxloc st))"

subsection \<open>Example signals\<close>

text \<open>Ten samples with one impulse, sampled at 256 Hz.\<close>

definition ecg10 :: "real list" where
  "ecg10 = [0, 0, 0, 1, 0, 0, 0, 0, 0, 0]"

text \<open>Thirty samples with three deflections.\<close>

definition ecg30 :: "real list" where
  "ecg30 = [0, 0, 0, 0, 0, 5, 0, 0, 0, 0, 0, 0, 0, - 1, 1, 0, 0, 0, 0, 0, 6, 0, 0, 0, 0, 0, 0, 0, 0, 0]"

definition mdfint30 :: "real list" where
  "mdfint30 = [25, 50, 50, 50, 50, 50, 50, 25, 1, 5, 6, 6, 6, 6, 6, 41, 73, 72, 72, 72, 72, 72,
     36, 0, 0, 0, 0, 0, 0]"

text \<open>
  Fifty-two samples without a sentinel: three unit steps, three samples apart, so that one
  window of seven differences holds all three.
\<close>

definition ecg52 :: "real list" where
  "ecg52 = [0, 0, 0, 0, 0, 0, 0, 0, 0, 0, 0, 0, 0, 0, 0, 0, 0, 0, 0, 0, 1, 1, 1, 2, 2, 2,
     3, 3, 3, 3, 3, 3, 3, 3, 3, 3, 3, 3, 3, 3, 3, 3, 3, 3, 3, 3, 3, 3, 3, 3, 3, 3]"

definition mdfint52 :: "real list" where
  "mdfint52 = [0, 0, 0, 0, 0, 0, 0, 0, 0, 0, 0, 0, 0, 0, 0, 1, 1, 1, 2, 2, 2, 3, 2, 2, 2, 1,
     1, 1, 0, 0, 0, 0, 0, 0, 0, 0, 0, 0, 0, 0, 0, 0, 0, 0, 0, 0, 0, 0, 0, 0, 0]"

text \<open>Twenty-seven samples, the eleventh (index 10) an invalid sample marked by the sentinel.\<close>

definition ecg27 :: "real list" where
  "ecg27 = [0, 0, 0, 0, 0, 0, 0, 0, 0, 1, - 32768, 1, 1, 1, 1, 2, 2, 2, 2, 2, 2, 2, 2, 2, 2,
     2, 2]"

definition mdfint27 :: "real list" where
  "mdfint27 = [0, 0, 0, 0, 1, 1073807362, 2147614723, 2147614723, 2147614723, 2147614723,
     2147614724, 2147614723, 1073807362, 1, 1, 1, 1, 0, 0, 0, 0, 0, 0, 0, 0, 0]"

definition excl27 :: "real list" where
  "excl27 = [0, 0, 0, 0, 1, 1073807362, 2147614723, 2147614723, 2147614723, 2147614723,
     2147614723, 1073807362, 1, 1, 1, 1, 0, 0, 0, 0, 0, 0, 0, 0, 0]"

text \<open>
  Thirty-eight samples at 110 Hz: impulses six samples apart, the third one attenuated
  below the primary threshold.
\<close>

definition ecg38 :: "real list" where
  "ecg38 = [0, 0, 0, 4, 0, 0, 0, 0, 0, 4, 0, 0, 0, 0, 0, 2, 0, 0, 0, 0, 0, 4, 0, 0, 0, 0, 0, 4,
     0, 0, 0, 0, 0, 4, 0, 0, 0, 0]"

definition mdfint38 :: "real list" where
  "mdfint38 = [16, 32, 32, 16, 0, 0, 16, 32, 32, 16, 0, 0, 4, 8, 8, 4, 0, 0, 16, 32, 32, 16,
     0, 0, 16, 32, 32, 16, 0, 0, 16, 32, 32, 16, 0, 0, 0]"

text \<open>Ten equal samples.\<close>

definition flat10 :: "real list" where
  "flat10 = [5, 5, 5, 5, 5, 5, 5, 5, 5, 5]"

text \<open>Thirty equal samples.\<close>

definition flat30 :: "real list" where
  "flat30 = replicate 30 5"

text \<open>
  The twenty times that \<^verbatim>\<open>np.arange(0.01, 0.21, 0.01)\<close> gives in double precision, the
  entry \<open>i\<close> being \<open>0.01 + i * 0.01\<close> with both operations rounded, and an envelope of
  nineteen samples with two pairs of neighbours above the level 8 and two samples between
  them above the level 2.
\<close>

definition tm20 :: "real list" where
  "tm20 = [5764607523034235 / 2 ^ 59, 5764607523034235 / 2 ^ 58, 1080863910568919 / 2 ^ 55,
     5764607523034235 / 2 ^ 57, 3602879701896397 / 2 ^ 56, 8646911284551353 / 2 ^ 57,
     5044031582654955 / 2 ^ 56, 5764607523034235 / 2 ^ 56, 3242591731706757 / 2 ^ 55,
     7205759403792793 / 2 ^ 56, 7926335344172073 / 2 ^ 56, 1080863910568919 / 2 ^ 53,
     1170935903116329 / 2 ^ 53, 1261007895663739 / 2 ^ 53, 1351079888211149 / 2 ^ 53,
     5764607523034235 / 2 ^ 55, 6124895493223875 / 2 ^ 55, 6485183463413515 / 2 ^ 55,
     3422735716801577 / 2 ^ 54, 3602879701896397 / 2 ^ 54]"

text \<open>The double nearest to 0.8, the threshold coefficient that \<^verbatim>\<open>jqrs\<close> passes.\<close>

definition double_0_8 :: real where
  "double_0_8 = 3602879701896397 / 2 ^ 52"

definition mdfint19 :: "real list" where
  "mdfint19 = [0, 0, 0, 0, 0, 0, 0, 0, 0, 10, 10, 5, 0, 0, 0, 0, 5, 10, 10]"

text \<open>
  A read back that raises \<^verbatim>\<open>OverflowError\<close> for a negative frequency, as \<^verbatim>\<open>np.uint\<close> does
  on a negative integer, and gives the signal as it is otherwise.
\<close>

definition uint_read_back :: "real list \<Rightarrow> real \<Rightarrow> error + real list" where
  "uint_read_back signal fs = (if fs < 0 then Inl OverflowError else Inr signal)"

section \<open>Properties of the stages\<close>

subsection \<open>Error values and rounding\<close>

lemma bind_err_Inr [simp]: "bind_err (Inr x) f = f x"
  by (simp add: bind_err_def)

lemma bind_err_Inl [simp]: "bind_err (Inl e) f = Inl e"
  by (simp add: bind_err_def)

lemma bind_err_eq_Inr: "bind_err m f = Inr y \<longleftrightarrow> (\<exists>x. m = Inr x \<and> f x = Inr y)"
  by (cases m) auto

lemma map_err_total:
  assumes "\<And>x. x \<in> set xs \<Longrightarrow> f x = Inr (g x)"
  shows "map_err f xs = Inr (map g xs)"
  using assms by (induction xs) auto

lemma map_err_Inr_length: "map_err f xs = Inr ys \<Longrightarrow> length ys = length xs"
  by (induction xs arbitrary: ys) (auto simp: bind_err_eq_Inr)

lemma np_round_upper: "real_of_int (np_round x) \<le> x + 1 / 2"
  unfolding np_round_def Let_def by (auto; linarith)

lemma np_round_lower: "x - 1 / 2 \<le> real_of_int (np_round x)"
  unfolding np_round_def Let_def by (auto; linarith)

lemma np_round_nonneg: "0 \<le> x \<Longrightarrow> 0 \<le> np_round x"
  unfolding np_round_def Let_def by (auto; linarith)

lemma np_round_tie: "np_round (49 / 2) = 24"
  unfolding np_round_def Let_def by simp

lemma ind_xs_bound: "ind_xs n < n \<longleftrightarrow> 25 \<le> n"
proof -
  let ?x = "98 / 100 * real n"
  have nn: "0 \<le> np_round ?x" by (rule np_round_nonneg) simp
  show ?thesis
  proof (cases "n = 25")
    case True
    then show ?thesis by (simp add: ind_xs_def np_round_tie)
  next
    case False
    show ?thesis
    proof (cases "25 < n")
      case True
      have "real_of_int (np_round ?x) \<le> ?x + 1 / 2" by (rule np_round_upper)
      also have "\<dots> < real n" using True by simp
      finally have "np_round ?x < int n" by linarith
      then show ?thesis using True nn by (simp add: ind_xs_def)
    next
      case F2: False
      with False have lt: "n < 25" by simp
      have "real n - 1 < ?x - 1 / 2" using lt by simp
      also have "\<dots> \<le> real_of_int (np_round ?x)" by (rule np_round_lower)
      finally have "int n - 1 < np_round ?x" by linarith
      then have "int n \<le> np_round ?x" by linarith
      then show ?thesis using lt by (simp add: ind_xs_def)
    qed
  qed
qed

subsection \<open>The energy envelope\<close>

lemma length_np_diff [simp]: "length (np_diff xs) = length xs - 1"
  by (induction xs rule: np_diff.induct) auto

lemma np_diff_scale: "np_diff (map (\<lambda>x. c * x) xs) = map (\<lambda>x. c * x) (np_diff (xs::real list))"
  by (induction xs rule: np_diff.induct) (auto simp: right_diff_distrib)

lemma np_diff_nth: "Suc i < length xs \<Longrightarrow> np_diff xs ! i = xs ! Suc i - xs ! i"
proof (induction xs arbitrary: i rule: np_diff.induct)
  case (1 x y xs)
  then show ?case by (cases i) auto
qed auto

lemma np_ones_Inr: "np_ones n = Inr b \<longleftrightarrow> 0 \<le> n \<and> b = replicate (nat n) 1"
  by (auto simp: np_ones_def)

lemma lfilter_Inr: "lfilter b x = Inr y \<Longrightarrow> length y = length x"
  by (auto simp: lfilter_def split: if_splits)

lemma lfilter_scale:
  "lfilter b (map (\<lambda>v. c * v) x) = map_sum id (map (\<lambda>v. c * v)) (lfilter b x)"
proof -
  have "sum_list (map (\<lambda>j. real_of_int (b ! j) * map (\<lambda>v. c * v) x ! (k - j)) [0..<min (Suc k) (length b)])
      = c * sum_list (map (\<lambda>j. real_of_int (b ! j) * x ! (k - j)) [0..<min (Suc k) (length b)])"
    if "k < length x" for k
  proof -
    have "map (\<lambda>j. real_of_int (b ! j) * map (\<lambda>v. c * v) x ! (k - j)) [0..<min (Suc k) (length b)]
        = map (\<lambda>j. c * (real_of_int (b ! j) * x ! (k - j))) [0..<min (Suc k) (length b)]"
    proof (rule map_cong[OF refl])
      fix j assume "j \<in> set [0..<min (Suc k) (length b)]"
      have "k - j < length x" using that by simp
      then show "real_of_int (b ! j) * map (\<lambda>v. c * v) x ! (k - j) = c * (real_of_int (b ! j) * x ! (k - j))"
        by simp
    qed
    then show ?thesis by (simp only: sum_list_const_mult)
  qed
  then have "map (\<lambda>k. sum_list (map (\<lambda>j. real_of_int (b ! j) * map (\<lambda>v. c * v) x ! (k - j)) [0..<min (Suc k) (length b)])) [0..<length x]
     = map (\<lambda>v. c * v) (map (\<lambda>k. sum_list (map (\<lambda>j. real_of_int (b ! j) * x ! (k - j)) [0..<min (Suc k) (length b)])) [0..<length x])"
    by (simp only: map_map o_def) (rule map_cong[OF refl], simp)
  then show ?thesis by (simp add: lfilter_def)
qed

lemma lfilter_ones_nonneg:
  assumes "lfilter (replicate w 1) x = Inr y" and "\<And>v. v \<in> set x \<Longrightarrow> 0 \<le> v" and "v \<in> set y"
  shows "0 \<le> v"
proof -
  from assms(1) have y: "y = map (\<lambda>k. sum_list (map (\<lambda>j. of_int (replicate w 1 ! j) * x ! (k - j))
                                        [0..<min (Suc k) w])) [0..<length x]"
    by (auto simp: lfilter_def split: if_splits)
  from assms(3) obtain k where k: "k < length x"
    and v: "v = sum_list (map (\<lambda>j. of_int (replicate w 1 ! j) * x ! (k - j)) [0..<min (Suc k) w])"
    unfolding y by auto
  have "0 \<le> real_of_int (replicate w 1 ! j) * x ! (k - j)" if "j < min (Suc k) w" for j
    using that k assms(2)[of "x ! (k - j)"] by simp
  then show ?thesis unfolding v by (intro sum_list_nonneg) auto
qed

lemma length_np_roll [simp]: "length (np_roll xs s) = length xs"
  by (simp add: np_roll_def)

lemma np_roll_index: "i < length xs \<Longrightarrow> nat ((int i - s) mod int (length xs)) < length xs"
  by (cases "xs = []") (auto simp: nat_less_iff)

lemma set_np_roll_subset: "set (np_roll xs s) \<subseteq> set xs"
proof
  fix v assume "v \<in> set (np_roll xs s)"
  then obtain i where "i < length xs" "v = xs ! nat ((int i - s) mod int (length xs))"
    by (auto simp: np_roll_def)
  then show "v \<in> set xs" using np_roll_index[of i xs s] by simp
qed

lemma np_roll_map: "np_roll (map f xs) s = map f (np_roll xs s)"
  by (auto simp: np_roll_def np_roll_index)

lemma sqrecg_length [simp]: "length (sqrecg ecg) = length ecg - 1"
  by (simp add: sqrecg_def np_square_def dffecg_def)

lemma intecg_eq:
  "intecg ecg fs = (if INT_NB_COEFF fs < 1 \<or> length ecg < 2 then Inl ValueError
     else lfilter (replicate (nat (INT_NB_COEFF fs)) 1) (sqrecg ecg))"
proof -
  have "(sqrecg ecg = []) = (length (sqrecg ecg) = 0)" by (rule length_0_conv[symmetric])
  also have "\<dots> = (length ecg < 2)" unfolding sqrecg_length by arith
  finally have e: "sqrecg ecg = [] \<longleftrightarrow> length ecg < 2" .
  show ?thesis
  proof (cases "INT_NB_COEFF fs < 0")
    case True
    then show ?thesis by (simp add: intecg_def np_ones_def)
  next
    case False
    then show ?thesis
      by (cases "INT_NB_COEFF fs = 0") (simp_all add: intecg_def np_ones_def lfilter_def e)
  qed
qed

lemma mdfint_eq:
  "mdfint ecg fs = (if INT_NB_COEFF fs < 1 \<or> length ecg < 2 then Inl ValueError
     else bind_err (lfilter (replicate (nat (INT_NB_COEFF fs)) 1) (sqrecg ecg))
            (\<lambda>y. Inr (np_roll y (- delay fs))))"
  by (simp add: mdfint_def intecg_eq)

lemma lfilter_ok: "b \<noteq> [] \<Longrightarrow> x \<noteq> [] \<Longrightarrow> \<exists>y. lfilter b x = Inr y"
  by (simp add: lfilter_def)

lemma mdfint_Inr_iff: "(\<exists>m. mdfint ecg fs = Inr m) \<longleftrightarrow> 1 \<le> INT_NB_COEFF fs \<and> 2 \<le> length ecg"
proof (cases "INT_NB_COEFF fs < 1 \<or> length ecg < 2")
  case True
  then show ?thesis by (auto simp: mdfint_eq)
next
  case False
  then have "length (replicate (nat (INT_NB_COEFF fs)) (1::int)) \<noteq> 0" "length (sqrecg ecg) \<noteq> 0"
    by simp_all
  then have "replicate (nat (INT_NB_COEFF fs)) (1::int) \<noteq> []" "sqrecg ecg \<noteq> []"
    by fastforce+
  from lfilter_ok[OF this] obtain y
    where "lfilter (replicate (nat (INT_NB_COEFF fs)) 1) (sqrecg ecg) = Inr y" by blast
  with False show ?thesis by (simp add: mdfint_eq)
qed

lemma mdfint_length: "mdfint ecg fs = Inr m \<Longrightarrow> length m = length ecg - 1"
  by (auto simp: mdfint_eq bind_err_eq_Inr split: if_splits dest!: lfilter_Inr)

lemma mdfint_nonneg:
  assumes "mdfint ecg fs = Inr m" and "v \<in> set m"
  shows "0 \<le> v"
proof -
  from assms(1) have c: "\<not> (INT_NB_COEFF fs < 1 \<or> length ecg < 2)"
    by (auto simp: mdfint_eq)
  with assms(1) obtain y where y: "lfilter (replicate (nat (INT_NB_COEFF fs)) 1) (sqrecg ecg) = Inr y"
    and m: "m = np_roll y (- delay fs)"
    unfolding mdfint_eq by (auto simp: bind_err_eq_Inr)
  have vy: "v \<in> set y" using assms(2) set_np_roll_subset[of y "- delay fs"] unfolding m by blast
  have sq: "0 \<le> u" if "u \<in> set (sqrecg ecg)" for u
  proof -
    from that obtain d where "u = d * d" unfolding sqrecg_def np_square_def by auto
    then show ?thesis by simp
  qed
  show ?thesis by (rule lfilter_ones_nonneg[OF y sq vy])
qed

lemma mdfint_scale:
  "mdfint (map (\<lambda>x. c * x) ecg) fs = map_sum id (map (\<lambda>v. (c * c) * v)) (mdfint ecg fs)"
proof -
  have "np_square (map (\<lambda>x. c * x) ys) = map (\<lambda>v. (c * c) * v) (np_square ys)" for ys
    by (simp add: np_square_def mult_ac)
  then have sq: "sqrecg (map (\<lambda>x. c * x) ecg) = map (\<lambda>v. (c * c) * v) (sqrecg ecg)"
    by (simp only: sqrecg_def dffecg_def np_diff_scale)
  show ?thesis
    by (cases "lfilter (replicate (nat (INT_NB_COEFF fs)) 1) (sqrecg ecg)")
      (simp_all add: mdfint_eq sq lfilter_scale np_roll_map)
qed

subsection \<open>Indices of true entries\<close>

lemma set_np_nonzero: "set (np_nonzero k bs) = {k + i | i. i < length bs \<and> bs ! i}"
proof (induction bs arbitrary: k)
  case Nil
  then show ?case by simp
next
  case (Cons b bs)
  have "{k + i | i. i < length (b # bs) \<and> (b # bs) ! i}
      = (if b then {k} else {}) \<union> {Suc k + i | i. i < length bs \<and> bs ! i}"
  proof (intro set_eqI iffI)
    fix x assume "x \<in> {k + i | i. i < length (b # bs) \<and> (b # bs) ! i}"
    then obtain i where i: "x = k + i" "i < length (b # bs)" "(b # bs) ! i" by blast
    show "x \<in> (if b then {k} else {}) \<union> {Suc k + i | i. i < length bs \<and> bs ! i}"
    proof (cases i)
      case 0
      with i show ?thesis by simp
    next
      case (Suc j)
      with i have "x = Suc k + j" "j < length bs" "bs ! j" by simp_all
      then show ?thesis by blast
    qed
  next
    fix x assume "x \<in> (if b then {k} else {}) \<union> {Suc k + i | i. i < length bs \<and> bs ! i}"
    then consider "b" "x = k" | j where "x = Suc k + j" "j < length bs" "bs ! j"
      by (auto split: if_splits)
    then show "x \<in> {k + i | i. i < length (b # bs) \<and> (b # bs) ! i}"
    proof cases
      case 1
      then have "x = k + 0" "0 < length (b # bs)" "(b # bs) ! 0" by simp_all
      then show ?thesis by blast
    next
      case 2
      then have "x = k + Suc j" "Suc j < length (b # bs)" "(b # bs) ! Suc j" by simp_all
      then show ?thesis by blast
    qed
  qed
  then show ?case using Cons.IH[of "Suc k"] by auto
qed

lemma set_np_where: "set (np_where bs) = {i. i < length bs \<and> bs ! i}"
  by (simp add: np_where_def set_np_nonzero)

lemma np_nonzero_ge: "x \<in> set (np_nonzero k bs) \<Longrightarrow> k \<le> x"
  by (auto simp: set_np_nonzero)

lemma sorted_np_nonzero: "sorted_wrt (<) (np_nonzero k bs)"
proof (induction bs arbitrary: k)
  case Nil
  then show ?case by simp
next
  case (Cons b bs)
  have "k < x" if "x \<in> set (np_nonzero (Suc k) bs)" for x
    using np_nonzero_ge[OF that] by simp
  then show ?case using Cons.IH[of "Suc k"] by auto
qed

lemma sorted_np_where: "sorted_wrt (<) (np_where bs)"
  by (simp add: np_where_def sorted_np_nonzero)

lemma np_where_nth_less:
  "i < length (np_where bs) \<Longrightarrow> np_where bs ! i < length bs"
  using set_np_where[of bs] nth_mem[of i "np_where bs"] by auto

lemma np_where_nth_true:
  "i < length (np_where bs) \<Longrightarrow> bs ! (np_where bs ! i)"
  using set_np_where[of bs] nth_mem[of i "np_where bs"] by auto

lemma np_where_between:
  assumes "Suc i < length (np_where bs)"
    and "np_where bs ! i < k" and "k < np_where bs ! Suc i"
  shows "\<not> bs ! k"
proof
  assume "bs ! k"
  moreover have "k < length bs"
    using np_where_nth_less[OF assms(1)] assms(3) by simp
  ultimately have "k \<in> set (np_where bs)" by (simp add: set_np_where)
  then obtain j where j: "j < length (np_where bs)" "np_where bs ! j = k"
    by (auto simp: in_set_conv_nth)
  have "i < j"
  proof (rule ccontr)
    assume "\<not> i < j"
    then have "j \<le> i" by simp
    then have "np_where bs ! j \<le> np_where bs ! i"
      using sorted_np_where[of bs] assms(1)
      by (cases "j = i") (auto simp: sorted_wrt_iff_nth_less less_imp_le)
    with j assms(2) show False by simp
  qed
  moreover have "j < Suc i"
  proof (rule ccontr)
    assume "\<not> j < Suc i"
    then have "Suc i \<le> j" by simp
    then have "np_where bs ! Suc i \<le> np_where bs ! j"
      using sorted_np_where[of bs] j(1)
      by (cases "j = Suc i") (auto simp: sorted_wrt_iff_nth_less less_imp_le)
    with j assms(3) show False by simp
  qed
  ultimately show False by simp
qed

lemma np_where_empty: "(np_where bs = []) = (\<forall>i<length bs. \<not> bs ! i)"
proof -
  have "(np_where bs = []) = (set (np_where bs) = {})" by simp
  then show ?thesis unfolding set_np_where by auto
qed

subsection \<open>The reference energy\<close>

lemma np_delete_nil: "np_delete xs [] = Inr xs"
  by (simp add: np_delete_def map_nth)

lemma mdfint_temp_del_ok:
  "(\<exists>x. mdfint_temp_del ecg m = Inr x) = (\<forall>i<length ecg. ecg ! i = sentinel \<longrightarrow> i < length m)"
proof -
  have "list_all (\<lambda>i. i < length m) (np_where (map (\<lambda>x. x = sentinel) ecg))
      = (\<forall>i<length ecg. ecg ! i = sentinel \<longrightarrow> i < length m)"
    unfolding list_all_iff set_np_where by auto
  then show ?thesis by (simp add: mdfint_temp_del_def np_delete_def)
qed

lemma mdfint_temp_del_err:
  "mdfint_temp_del ecg m = Inl e \<Longrightarrow> e = IndexError"
  by (simp add: mdfint_temp_del_def np_delete_def split: if_splits)

lemma mdfint_temp_del_clean:
  assumes "sentinel \<notin> set ecg"
  shows "mdfint_temp_del ecg m = Inr m"
proof -
  have "np_where (map (\<lambda>x. x = sentinel) ecg) = []"
    unfolding np_where_empty using assms by (auto simp: in_set_conv_nth)
  then show ?thesis by (simp add: mdfint_temp_del_def np_delete_nil)
qed

lemma sentinel_in_range:
  assumes "length m = length ecg - 1" and "ecg \<noteq> []"
  shows "(\<forall>i<length ecg. ecg ! i = sentinel \<longrightarrow> i < length m) = (last ecg \<noteq> sentinel)"
proof -
  have l: "last ecg = ecg ! (length ecg - 1)" using assms(2) by (rule last_conv_nth)
  show ?thesis
  proof
    assume a: "\<forall>i<length ecg. ecg ! i = sentinel \<longrightarrow> i < length m"
    show "last ecg \<noteq> sentinel"
    proof
      assume "last ecg = sentinel"
      with l a[rule_format, of "length ecg - 1"] assms show False by simp
    qed
  next
    assume b: "last ecg \<noteq> sentinel"
    show "\<forall>i<length ecg. ecg ! i = sentinel \<longrightarrow> i < length m"
    proof (intro allI impI)
      fix i assume "i < length ecg" "ecg ! i = sentinel"
      with b l have "i \<noteq> length ecg - 1" by auto
      with \<open>i < length ecg\<close> assms(1) show "i < length m" by simp
    qed
  qed
qed

lemma en_thres_eq:
  assumes "length m = length ecg - 1" and "ecg \<noteq> []"
  shows "en_thres ecg m = (if last ecg = sentinel \<or> length m < 25 then Inl IndexError
           else Inr (sort m ! ind_xs (length m)))"
proof (cases "mdfint_temp_del ecg m")
  case (Inl e)
  then have "\<not> (\<exists>x. mdfint_temp_del ecg m = Inr x)" by simp
  then have "last ecg = sentinel"
    unfolding mdfint_temp_del_ok sentinel_in_range[OF assms] by simp
  with Inl mdfint_temp_del_err[OF Inl] show ?thesis by (simp add: en_thres_def)
next
  case (Inr x)
  then have "\<exists>x. mdfint_temp_del ecg m = Inr x" by blast
  then have "last ecg \<noteq> sentinel"
    unfolding mdfint_temp_del_ok sentinel_in_range[OF assms] .
  with Inr show ?thesis
    using ind_xs_bound[of "length m"] by (simp add: en_thres_def py_index_def)
qed

lemma en_thres_in_set: 
  assumes "en_thres ecg m = Inr en"
  shows "en \<in> set m"
proof -
  from assms have "py_index (sort m) (ind_xs (length (sort m))) = Inr en"
    by (auto simp: en_thres_def bind_err_eq_Inr Let_def)
  then have "ind_xs (length (sort m)) < length (sort m)" "en = sort m ! ind_xs (length (sort m))"
    by (auto simp: py_index_def split: if_splits)
  then have "en \<in> set (sort m)" using nth_mem by blast
  then show ?thesis by simp
qed

subsection \<open>The search back\<close>

lemma window_positive_rate:
  assumes "1 \<le> INT_NB_COEFF fs"
  shows "0 < fs"
proof -
  have "1 \<le> real_of_int (np_round (7 * fs / 256))"
    using assms unfolding INT_NB_COEFF_def by linarith
  also have "\<dots> \<le> 7 * fs / 256 + 1 / 2" by (rule np_round_upper)
  finally show ?thesis by simp
qed

lemma tm_ok:
  assumes "fs \<noteq> 0"
  shows "tm fs n = Inr (map (\<lambda>i. (real i + 1) / fs) [0..<n])"
proof -
  have "((real n + 1) / fs - 1 / fs) / (1 / fs) = real n"
    using assms by (simp add: field_simps)
  then have len: "nat \<lceil>((real n + 1) / fs - 1 / fs) / (1 / fs)\<rceil> = n" by simp
  have e: "1 / fs + real i * (1 / fs) = (real i + 1) / fs" for i
    using assms by (simp add: field_simps)
  have "np_arange (1 / fs) ((real n + 1) / fs) (1 / fs)
      = map (\<lambda>i. 1 / fs + real i * (1 / fs)) [0..<n]"
    unfolding np_arange_def len ..
  also have "\<dots> = map (\<lambda>i. (real i + 1) / fs) [0..<n]"
    by (rule map_cong[OF refl]) (rule e)
  finally have ar: "np_arange (1 / fs) ((real n + 1) / fs) (1 / fs)
      = map (\<lambda>i. (real i + 1) / fs) [0..<n]" .
  have pi: "py_inverse fs = Inr (1 / fs)" using assms by (simp add: py_inverse_def)
  show ?thesis unfolding tm_def pi bind_err_Inr ar ..
qed

lemma np_take_ok:
  assumes "\<And>i. i \<in> set idx \<Longrightarrow> i < length xs"
  shows "np_take xs idx = Inr (map (\<lambda>i. xs ! i) idx)"
  unfolding np_take_def
  by (rule map_err_total) (simp add: py_index_def assms)

lemma length_RR_of [simp]: "length (RR_of fs ind) = length ind - 1"
  by (simp add: RR_of_def)

lemma RR_of_nth:
  assumes "Suc j < length ind"
  shows "RR_of fs ind ! j = (real (ind ! Suc j) - real (ind ! j)) / fs"
proof -
  have "RR_of fs ind ! j = (real (ind ! Suc j) + 1) / fs - (real (ind ! j) + 1) / fs"
    unfolding RR_of_def using assms by (simp add: np_diff_nth)
  also have "\<dots> = ((real (ind ! Suc j) + 1) - (real (ind ! j) + 1)) / fs"
    by (rule diff_divide_distrib[symmetric])
  finally show ?thesis by simp
qed

lemma RRv_ok:
  assumes "fs \<noteq> 0" and "\<And>i. i \<in> set ind \<Longrightarrow> i < n"
  shows "RRv (map (\<lambda>i. (real i + 1) / fs) [0..<n]) ind = Inr (RR_of fs ind)"
proof -
  have "np_take (map (\<lambda>i. (real i + 1) / fs) [0..<n]) ind
      = Inr (map (\<lambda>i. map (\<lambda>i. (real i + 1) / fs) [0..<n] ! i) ind)"
    by (rule np_take_ok) (simp add: assms(2))
  moreover have "map (\<lambda>i. map (\<lambda>i. (real i + 1) / fs) [0..<n] ! i) ind
      = map (\<lambda>i. (real i + 1) / fs) ind"
    by (rule map_cong[OF refl]) (simp add: assms(2))
  ultimately show ?thesis by (simp add: RRv_def RR_of_def)
qed

lemma indMissedBeat_less:
  assumes "j \<in> set (indMissedBeat rr)"
  shows "j < length rr"
  using assms unfolding indMissedBeat_def set_np_where by simp

lemma indMissedBeat_flag:
  "j \<in> set (indMissedBeat rr)
     \<longleftrightarrow> j < length rr \<and> gt_nan (rr ! j) (nan_mult (3 / 2) (medRRv rr))"
  unfolding indMissedBeat_def set_np_where by auto

lemma length_poss_reg [simp]: "length (poss_reg m thr en) = length m"
  by (simp add: poss_reg_def)

lemma search_back_ok:
  assumes "fs \<noteq> 0" and "length m \<le> n"
  shows "search_back m fs thr en n
       = Inr (fold (rescan m thr en) (flagged_gaps m fs thr en) (poss_reg m thr en))"
proof -
  define p where "p = poss_reg m thr en"
  define ind where "ind = np_where p"
  define rr where "rr = RR_of fs ind"
  define missed where "missed = indMissedBeat rr"
  have ind_lt: "i < n" if "i \<in> set ind" for i
    using that assms(2) unfolding ind_def set_np_where p_def by simp
  have rrv: "RRv (map (\<lambda>i. (real i + 1) / fs) [0..<n]) ind = Inr rr"
    unfolding rr_def by (rule RRv_ok[OF assms(1) ind_lt])
  have ms: "Suc j < length ind" if "j \<in> set missed" for j
    using indMissedBeat_less[of j rr] that unfolding missed_def rr_def by simp
  have st: "np_take ind missed = Inr (map (\<lambda>i. ind ! i) missed)"
    by (rule np_take_ok) (use ms in force)
  have en: "np_take ind (map Suc missed) = Inr (map (\<lambda>i. ind ! i) (map Suc missed))"
    by (rule np_take_ok) (use ms in force)
  have "map (\<lambda>i. (map (\<lambda>i. ind ! i) missed ! i, map (\<lambda>i. ind ! i) (map Suc missed) ! i))
          [0..<length (map (\<lambda>i. ind ! i) missed)]
      = map (\<lambda>j. (ind ! j, ind ! Suc j)) missed"
    by (rule nth_equalityI) simp_all
  then have gs: "map (\<lambda>i. (map (\<lambda>i. ind ! i) missed ! i, map (\<lambda>i. ind ! i) (map Suc missed) ! i))
          [0..<length (map (\<lambda>i. ind ! i) missed)] = flagged_gaps m fs thr en"
    unfolding flagged_gaps_def Let_def missed_def rr_def ind_def p_def by simp
  show ?thesis
    unfolding search_back_def Let_def tm_ok[OF assms(1)] bind_err_Inr
    unfolding p_def[symmetric] ind_def[symmetric] rrv bind_err_Inr
    unfolding missed_def[symmetric] st en bind_err_Inr gs ..
qed

lemma length_rescan [simp]: "length (rescan m thr en g p) = length p"
  by (simp add: rescan_def)

lemma length_fold_rescan [simp]: "length (fold (rescan m thr en) gs p) = length p"
  by (induction gs arbitrary: p) simp_all

lemma fold_rescan_nth:
  assumes "k < length p"
  shows "fold (rescan m thr en) gs p ! k
       = (if list_ex (\<lambda>g. fst g \<le> k \<and> k < snd g) gs then 1 / 4 * thr * en < m ! k else p ! k)"
  using assms
proof (induction gs arbitrary: p)
  case Nil
  then show ?case by simp
next
  case (Cons g gs)
  have "rescan m thr en g p ! k = (if fst g \<le> k \<and> k < snd g then 1 / 4 * thr * en < m ! k else p ! k)"
    using Cons.prems by (simp add: rescan_def)
  moreover have "k < length (rescan m thr en g p)" using Cons.prems by simp
  ultimately show ?case using Cons.IH[of "rescan m thr en g p"] by simp
qed

lemma lowered_threshold:
  fixes v :: real
  assumes "thr * en < v" and "0 \<le> v"
  shows "1 / 4 * thr * en < v"
proof -
  define t where "t = thr * en"
  have q: "1 / 4 * thr * en = t / 4" by (simp add: t_def)
  have a: "t < v" using assms(1) unfolding t_def .
  have "t / 4 < v" using a assms(2) by linarith
  then show ?thesis unfolding q .
qed

lemma in_flagged_gaps:
  "g \<in> set (flagged_gaps m fs thr en) \<longleftrightarrow>
     (\<exists>j. Suc j < length (np_where (poss_reg m thr en))
        \<and> gt_nan (RR_of fs (np_where (poss_reg m thr en)) ! j)
                 (nan_mult (3 / 2) (medRRv (RR_of fs (np_where (poss_reg m thr en)))))
        \<and> g = (np_where (poss_reg m thr en) ! j, np_where (poss_reg m thr en) ! Suc j))"
proof -
  have "(j < length ind - 1) = (Suc j < length ind)" for j and ind :: "nat list"
    by arith
  then show ?thesis
    unfolding flagged_gaps_def Let_def set_map image_iff indMissedBeat_flag length_RR_of Bex_def
    by auto
qed

lemma poss_reg_nth: "k < length m \<Longrightarrow> poss_reg m thr en ! k = (thr * en < m ! k)"
  by (simp add: poss_reg_def)

lemma search_back_mask:
  fixes m :: "real list" and thr en fs :: real and k :: nat
  assumes nonneg: "\<And>v. v \<in> set m \<Longrightarrow> 0 \<le> v" and k: "k < length m"
  defines "p \<equiv> poss_reg m thr en"
  defines "ind \<equiv> np_where (poss_reg m thr en)"
  defines "flag \<equiv> \<lambda>j. Suc j < length ind
      \<and> gt_nan (RR_of fs ind ! j) (nan_mult (3 / 2) (medRRv (RR_of fs ind)))"
  shows "fold (rescan m thr en) (flagged_gaps m fs thr en) p ! k
       = (p ! k \<or> (\<exists>j. flag j \<and> ind ! j < k \<and> k < ind ! Suc j \<and> 1 / 4 * thr * en < m ! k))"
proof -
  have kp: "k < length p" using k by (simp add: p_def)
  have ex: "list_ex (\<lambda>g. fst g \<le> k \<and> k < snd g) (flagged_gaps m fs thr en)
      = (\<exists>j. flag j \<and> ind ! j \<le> k \<and> k < ind ! Suc j)"
    unfolding list_ex_iff Bex_def in_flagged_gaps flag_def ind_def by auto
  have mk: "0 \<le> m ! k" using nonneg[of "m ! k"] k by simp
  show ?thesis
  proof (cases "\<exists>j. flag j \<and> ind ! j \<le> k \<and> k < ind ! Suc j")
    case True
    then obtain j where j: "flag j" "ind ! j \<le> k" "k < ind ! Suc j" by blast
    have "list_ex (\<lambda>g. fst g \<le> k \<and> k < snd g) (flagged_gaps m fs thr en)"
      using True unfolding ex .
    then have lhs: "fold (rescan m thr en) (flagged_gaps m fs thr en) p ! k = (1 / 4 * thr * en < m ! k)"
      unfolding fold_rescan_nth[OF kp] by (simp only: if_True)
    show ?thesis
    proof (cases "ind ! j = k")
      case eq: True
      have "j < length ind" using j(1) unfolding flag_def by simp
      then have "p ! k" using np_where_nth_true[of j p] eq unfolding ind_def p_def by simp
      moreover from this have "thr * en < m ! k" using poss_reg_nth[OF k] unfolding p_def by simp
      then have "1 / 4 * thr * en < m ! k" using mk by (rule lowered_threshold)
      ultimately show ?thesis unfolding lhs by blast
    next
      case False
      with j(2) have lt: "ind ! j < k" by simp
      have sj: "Suc j < length (np_where p)" using j(1) unfolding flag_def ind_def p_def by simp
      have "\<not> p ! k"
        by (rule np_where_between[OF sj]) (use lt j(3) in \<open>simp_all add: ind_def p_def\<close>)
      then show ?thesis unfolding lhs using j(1) lt j(3) by blast
    qed
  next
    case False
    then have "\<not> list_ex (\<lambda>g. fst g \<le> k \<and> k < snd g) (flagged_gaps m fs thr en)"
      unfolding ex .
    then have lhs: "fold (rescan m thr en) (flagged_gaps m fs thr en) p ! k = p ! k"
      unfolding fold_rescan_nth[OF kp] by (simp only: if_False)
    have "\<not> (\<exists>j. flag j \<and> ind ! j < k \<and> k < ind ! Suc j \<and> 1 / 4 * thr * en < m ! k)"
      using False by (meson less_imp_le)
    then show ?thesis unfolding lhs by blast
  qed
qed

subsection \<open>The boundaries of the runs\<close>

lemma np_diff_Cons: "ys \<noteq> [] \<Longrightarrow> np_diff (x # ys) = (hd ys - x) # np_diff ys"
  by (cases ys) simp_all

lemma left_scan:
  "np_nonzero k (map (\<lambda>d. d = 1) (np_diff ((0::int) # map of_bool p))) = map fst (scan_runs None k p)"
  "l # np_nonzero k (map (\<lambda>d. d = 1) (np_diff ((1::int) # map of_bool p)))
     = map fst (scan_runs (Some l) k p)"
proof (induction p arbitrary: k l)
  case Nil
  { case 1 show ?case by simp }
  { case 2 show ?case by simp }
next
  case (Cons b q)
  { case 1
    show ?case
    proof (cases b)
      case True
      then show ?thesis using Cons.IH(2)[of k "Suc k"] by simp
    next
      case False
      then show ?thesis using Cons.IH(1)[of "Suc k"] by simp
    qed }
  { case 2
    show ?case
    proof (cases b)
      case True
      then show ?thesis using Cons.IH(2)[of l "Suc k"] by simp
    next
      case False
      then show ?thesis using Cons.IH(1)[of "Suc k"] by simp
    qed }
qed

lemma falling_Cons:
  "np_diff (map of_bool (b # q) @ [0::int])
     = (of_bool (q \<noteq> [] \<and> hd q) - of_bool b) # np_diff (map of_bool q @ [0])"
proof -
  have "np_diff (map of_bool (b # q) @ [0::int])
      = (hd (map of_bool q @ [0]) - of_bool b) # np_diff (map of_bool q @ [0])"
    using np_diff_Cons[of "map of_bool q @ [0::int]" "of_bool b"] by simp
  moreover have "hd (map of_bool q @ [0::int]) = of_bool (q \<noteq> [] \<and> hd q)"
    by (cases q) simp_all
  ultimately show ?thesis by simp
qed

lemma right_scan:
  "np_nonzero k (map (\<lambda>d. d = - 1) (np_diff (map of_bool p @ [0::int])))
     = map snd (scan_runs None k p)"
  "(if p = [] \<or> \<not> hd p then [k - 1] else [])
     @ np_nonzero k (map (\<lambda>d. d = - 1) (np_diff (map of_bool p @ [0::int])))
     = map snd (scan_runs (Some l) k p)"
proof (induction p arbitrary: k l)
  case Nil
  { case 1 show ?case by simp }
  { case 2 show ?case by simp }
next
  case (Cons b q)
  { case 1
    show ?case
    proof (cases b)
      case True
      then show ?thesis
        using Cons.IH(2)[of "Suc k" k] unfolding falling_Cons by (auto split: if_splits)
    next
      case False
      then show ?thesis
        using Cons.IH(1)[of "Suc k"] unfolding falling_Cons by (auto split: if_splits)
    qed }
  { case 2
    show ?case
    proof (cases b)
      case True
      then show ?thesis
        using Cons.IH(2)[of "Suc k" l] unfolding falling_Cons by (auto split: if_splits)
    next
      case False
      then show ?thesis
        using Cons.IH(1)[of "Suc k"] unfolding falling_Cons by (auto split: if_splits)
    qed }
qed

lemma left_runs: "left p = map fst (runs p)"
  by (simp add: left_def np_where_def runs_def left_scan(1))

lemma right_runs: "right p = map snd (runs p)"
  by (simp add: right_def np_where_def runs_def right_scan(1))

lemma scan_runs_bounds:
  assumes "g \<in> set (scan_runs s k p)" and "\<And>l. s = Some l \<Longrightarrow> l < k"
  shows "(case s of None \<Rightarrow> k | Some l \<Rightarrow> l) \<le> fst g \<and> fst g \<le> snd g \<and> snd g < k + length p
         \<and> (s = None \<or> fst g = the s \<or> k \<le> fst g)"
  using assms
proof (induction s k p rule: scan_runs.induct)
  case (1 k)
  then show ?case by simp
next
  case (2 l k)
  then show ?case by auto
next
  case (3 k b p)
  show ?case
  proof (cases b)
    case True
    with 3 have "k \<le> fst g \<and> fst g \<le> snd g \<and> snd g < Suc k + length p" by auto
    then show ?thesis by simp
  next
    case False
    with 3 have "Suc k \<le> fst g \<and> fst g \<le> snd g \<and> snd g < Suc k + length p" by auto
    then show ?thesis by simp
  qed
next
  case (4 l k b p)
  have lk: "l < k" using 4(4) by simp
  show ?case
  proof (cases b)
    case True
    with 4 lk have "l \<le> fst g \<and> fst g \<le> snd g \<and> snd g < Suc k + length p
        \<and> (fst g = l \<or> Suc k \<le> fst g)" by auto
    then show ?thesis by auto
  next
    case False
    show ?thesis
    proof (cases "g = (l, k - 1)")
      case True
      then show ?thesis using lk by auto
    next
      case F: False
      with False 4(3) have "g \<in> set (scan_runs None (Suc k) p)" by simp
      with 4(2)[OF False] have "Suc k \<le> fst g \<and> fst g \<le> snd g \<and> snd g < Suc k + length p"
        by simp
      then show ?thesis using lk by auto
    qed
  qed
qed

lemma scan_runs_None_bounds:
  assumes "g \<in> set (scan_runs None k p)"
  shows "k \<le> fst g \<and> fst g \<le> snd g \<and> snd g < k + length p"
  using scan_runs_bounds[OF assms] by simp

lemma scan_runs_separated:
  assumes "\<And>l. s = Some l \<Longrightarrow> l < k"
  shows "successively (\<lambda>a b. snd a < fst b) (scan_runs s k p)"
  using assms
proof (induction s k p rule: scan_runs.induct)
  case (1 k)
  then show ?case by simp
next
  case (2 l k)
  then show ?case by simp
next
  case (3 k b p)
  then show ?case by (cases b) simp_all
next
  case (4 l k b p)
  show ?case
  proof (cases b)
    case True
    with 4 show ?thesis by simp
  next
    case False
    have s: "successively (\<lambda>a b. snd a < fst b) (scan_runs None (Suc k) p)"
      using 4(2)[OF False] by simp
    have "k - 1 < fst (hd (scan_runs None (Suc k) p))" if "scan_runs None (Suc k) p \<noteq> []"
    proof -
      have "Suc k \<le> fst (hd (scan_runs None (Suc k) p))"
        using scan_runs_None_bounds[of "hd (scan_runs None (Suc k) p)" "Suc k" p] that by simp
      then show ?thesis by arith
    qed
    with s False show ?thesis by (auto simp add: successively_Cons)
  qed
qed

lemma runs_bounds:
  assumes "j < length (runs p)"
  shows "fst (runs p ! j) \<le> snd (runs p ! j)" and "snd (runs p ! j) < length p"
  using scan_runs_None_bounds[of "runs p ! j" 0 p] assms unfolding runs_def by simp_all

lemma runs_separated:
  assumes "Suc j < length (runs p)"
  shows "snd (runs p ! j) < fst (runs p ! Suc j)"
  using successively_nth[OF scan_runs_separated[of None 0 p] , of j] assms
  unfolding runs_def by simp

lemma scan_runs_empty: "\<forall>b\<in>set p. \<not> b \<Longrightarrow> scan_runs None k p = []"
  by (induction p arbitrary: k) auto

lemma runs_all_false: "\<forall>b\<in>set p. \<not> b \<Longrightarrow> runs p = []"
  unfolding runs_def by (rule scan_runs_empty)

subsection \<open>The refractory step on the two arrays\<close>

lemma zip_take_Suc:
  assumes "c < length xs" and "c < length ys"
  shows "zip (take (Suc c) xs) (take (Suc c) ys) = zip (take c xs) (take c ys) @ [(xs ! c, ys ! c)]"
  using assms by (simp add: take_Suc_conv_app_nth)

lemma take_delete_same:
  assumes "c \<le> length xs"
  shows "take c (take c xs @ drop (Suc c) xs) = take c xs"
  using assms by simp

lemma take_delete_prev:
  assumes "0 < c" and "c < length xs"
  shows "take c (take (c - 1) xs @ drop c xs) = take (c - 1) xs @ [xs ! c]"
proof -
  from assms(1) obtain d where d: "c = Suc d" by (cases c) simp_all
  have l: "length (take d xs) = d" using assms(2) d by simp
  have "take (Suc 0) (drop (Suc d) xs) = take 0 (drop (Suc d) xs) @ [drop (Suc d) xs ! 0]"
    by (rule take_Suc_conv_app_nth) (use assms(2) d in simp)
  then have o: "take (Suc 0) (drop (Suc d) xs) = [xs ! Suc d]"
    using assms(2) d by simp
  have "take (Suc d) (take d xs @ drop (Suc d) xs)
      = take (Suc d) (take d xs) @ take (Suc d - length (take d xs)) (drop (Suc d) xs)"
    by (rule take_append)
  also have "\<dots> = take d xs @ take (Suc 0) (drop (Suc d) xs)"
    unfolding l by simp
  finally show ?thesis unfolding o d by simp
qed

lemma refractory_ok:
  assumes c: "c < length mv" and len: "length ml = length mv"
  shows "\<exists>st'. refractory fs rp mv ml c = Inr st'
      \<and> length (maxloc st') = length (maxval st')
      \<and> compt st' + (length mv - c - 1) = length (maxval st')
      \<and> retained st' = push fs rp (mv ! c, ml ! c) (zip (take c mv) (take c ml))"
proof (cases "c = 0")
  case True
  have "zip (take (Suc 0) mv) (take (Suc 0) ml) = [(mv ! 0, ml ! 0)]"
    using zip_take_Suc[of 0 mv ml] c len True by simp
  then show ?thesis using True c len
    by (simp add: refractory_def retained_def push_def)
next
  case False
  then have c0: "0 < c" by simp
  define rs where "rs = zip (take c mv) (take c ml)"
  have rs: "rs = zip (take (c - 1) mv) (take (c - 1) ml) @ [(mv ! (c - 1), ml ! (c - 1))]"
    unfolding rs_def using zip_take_Suc[of "c - 1" mv ml] c len c0 by simp
  then have ne: "rs \<noteq> []" and la: "last rs = (mv ! (c - 1), ml ! (c - 1))"
    and bl: "butlast rs = zip (take (c - 1) mv) (take (c - 1) ml)"
    by simp_all
  have close: "too_close fs rp ml c = (real (ml ! c) - real (snd (last rs)) < fs * rp)"
    by (simp add: too_close_def la)
  consider (A) "too_close fs rp ml c" "\<bar>mv ! c\<bar> < \<bar>mv ! (c - 1)\<bar>"
    | (B) "too_close fs rp ml c" "\<bar>mv ! (c - 1)\<bar> \<le> \<bar>mv ! c\<bar>"
    | (C) "\<not> too_close fs rp ml c"
    by linarith
  then show ?thesis
  proof cases
    case A
    have r: "refractory fs rp mv ml c
        = Inr \<lparr>maxval = take c mv @ drop (Suc c) mv, maxloc = take c ml @ drop (Suc c) ml, compt = c\<rparr>"
      using A c0 c len by (simp add: refractory_def np_delete1_def)
    have p: "push fs rp (mv ! c, ml ! c) rs = rs"
      using A ne close la by (simp add: push_def)
    have t: "take c (take c mv @ drop (Suc c) mv) = take c mv"
      "take c (take c ml @ drop (Suc c) ml) = take c ml"
      using c len by simp_all
    show ?thesis
      unfolding r rs_def[symmetric] p using c len
      by (simp add: retained_def t rs_def)
  next
    case B
    have r: "refractory fs rp mv ml c
        = Inr \<lparr>maxval = take (c - 1) mv @ drop c mv, maxloc = take (c - 1) ml @ drop c ml, compt = c\<rparr>"
      using B c0 c len by (simp add: refractory_def np_delete1_def)
    have p: "push fs rp (mv ! c, ml ! c) rs = butlast rs @ [(mv ! c, ml ! c)]"
      using B ne close la by (simp add: push_def)
    have t: "take c (take (c - 1) mv @ drop c mv) = take (c - 1) mv @ [mv ! c]"
      "take c (take (c - 1) ml @ drop c ml) = take (c - 1) ml @ [ml ! c]"
      using take_delete_prev[OF c0, of mv] take_delete_prev[OF c0, of ml] c len by simp_all
    have "retained \<lparr>maxval = take (c - 1) mv @ drop c mv, maxloc = take (c - 1) ml @ drop c ml, compt = c\<rparr>
        = zip (take (c - 1) mv @ [mv ! c]) (take (c - 1) ml @ [ml ! c])"
      unfolding retained_def by (simp only: peaks.select_convs t)
    also have "\<dots> = zip (take (c - 1) mv) (take (c - 1) ml) @ [(mv ! c, ml ! c)]"
      using len by simp
    finally have rt: "retained \<lparr>maxval = take (c - 1) mv @ drop c mv, maxloc = take (c - 1) ml @ drop c ml, compt = c\<rparr>
        = zip (take (c - 1) mv) (take (c - 1) ml) @ [(mv ! c, ml ! c)]" .
    show ?thesis
      unfolding r rs_def[symmetric] p bl using c len c0 rt
      by simp
  next
    case C
    have r: "refractory fs rp mv ml c = Inr \<lparr>maxval = mv, maxloc = ml, compt = c + 1\<rparr>"
      using C c0 by (simp add: refractory_def)
    have p: "push fs rp (mv ! c, ml ! c) rs = rs @ [(mv ! c, ml ! c)]"
      using C ne close by (simp add: push_def)
    show ?thesis
      unfolding r rs_def[symmetric] p using c len zip_take_Suc[of c mv ml]
      by (simp add: retained_def rs_def)
  qed
qed

subsection \<open>Extrema of a slice\<close>

lemma first_index_less: "v \<in> set xs \<Longrightarrow> first_index v xs < length xs"
  unfolding first_index_def by (induction xs) auto

lemma nth_first_index: "v \<in> set xs \<Longrightarrow> xs ! first_index v xs = v"
  using nth_length_takeWhile[of "\<lambda>x. x \<noteq> v" xs] first_index_less[of v xs]
  unfolding first_index_def by simp

lemma length_py_slice:
  assumes "l \<le> r" and "r < length xs"
  shows "length (py_slice xs l (Suc r)) = Suc r - l"
  using assms by (simp add: py_slice_def)

lemma py_slice_nonempty:
  assumes "l \<le> r" and "r < length xs"
  shows "py_slice xs l (Suc r) \<noteq> []"
proof -
  have "length (py_slice xs l (Suc r)) \<noteq> 0"
    unfolding length_py_slice[OF assms] using assms(1) by arith
  then show ?thesis by fastforce
qed

lemma py_slice_nth:
  assumes "l \<le> r" and "r < length xs" and "a < Suc r - l"
  shows "py_slice xs l (Suc r) ! a = xs ! (l + a)"
  using assms by (simp add: py_slice_def)

lemma candidate_ok: "seg \<noteq> [] \<Longrightarrow> candidate sg seg = Inr (extremum sg seg)"
  by (simp add: candidate_def extremum_def np_max_def np_min_def np_argmax_def np_argmin_def)

lemma extremum_index:
  assumes "seg \<noteq> []"
  shows "snd (extremum sg seg) < length seg"
    and "seg ! snd (extremum sg seg) = fst (extremum sg seg)"
proof -
  have "Max (set seg) \<in> set seg" "Min (set seg) \<in> set seg"
    using assms by (simp_all add: Max_in Min_in)
  then show "snd (extremum sg seg) < length seg"
    and "seg ! snd (extremum sg seg) = fst (extremum sg seg)"
    by (simp_all add: extremum_def first_index_less nth_first_index)
qed

subsection \<open>The loop over the runs keeps the retained peaks of the refractory rule\<close>

lemma length_candidates [simp]: "length (candidates ecg sg rs) = length rs"
  by (simp add: candidates_def)

lemma peak_step_ok:
  assumes j: "j < length rs"
    and wf: "\<And>g. g \<in> set rs \<Longrightarrow> fst g \<le> snd g \<and> snd g < length ecg"
    and c: "compt st < length (maxval st)"
    and len: "length (maxloc st) = length (maxval st)"
  shows "\<exists>st'. peak_step ecg fs rp sg (map fst rs) (map snd rs) j st = Inr st'
      \<and> length (maxloc st') = length (maxval st')
      \<and> compt st' + (length (maxval st) - compt st - 1) = length (maxval st')
      \<and> retained st' = push fs rp (candidates ecg sg rs ! j) (retained st)"
proof -
  define lj where "lj = fst (rs ! j)"
  define rj where "rj = snd (rs ! j)"
  define seg where "seg = py_slice ecg lj (rj + 1)"
  define v where "v = fst (extremum sg seg)"
  define a where "a = snd (extremum sg seg)"
  define mv where "mv = (maxval st)[compt st := v]"
  define ml where "ml = (maxloc st)[compt st := a + lj]"
  have g: "lj \<le> rj \<and> rj < length ecg" using wf[of "rs ! j"] j by (simp add: lj_def rj_def)
  have seg: "seg \<noteq> []" unfolding seg_def using g by (simp add: py_slice_nonempty)
  have il: "py_index (map fst rs) j = Inr lj" using j by (simp add: py_index_def lj_def)
  have ir: "py_index (map snd rs) j = Inr rj" using j by (simp add: py_index_def rj_def)
  have ca: "candidate sg (py_slice ecg lj (rj + 1)) = Inr (v, a)"
    using candidate_ok[OF seg] by (simp add: seg_def v_def a_def)
  have sv: "py_store (maxval st) (compt st) v = Inr mv" using c by (simp add: py_store_def mv_def)
  have sl: "py_store (maxloc st) (compt st) a = Inr ((maxloc st)[compt st := a])"
    using c len by (simp add: py_store_def)
  have up: "((maxloc st)[compt st := a])[compt st := (maxloc st)[compt st := a] ! compt st + lj] = ml"
    using c len by (simp add: ml_def)
  have step: "peak_step ecg fs rp sg (map fst rs) (map snd rs) j st = refractory fs rp mv ml (compt st)"
    unfolding peak_step_def il ir bind_err_Inr ca sv sl fst_conv snd_conv up ..
  have c': "compt st < length mv" and len': "length ml = length mv"
    using c len by (simp_all add: mv_def ml_def)
  have at: "mv ! compt st = v" "ml ! compt st = a + lj"
    using c len by (simp_all add: mv_def ml_def)
  have tk: "zip (take (compt st) mv) (take (compt st) ml) = retained st"
    by (simp add: mv_def ml_def retained_def)
  have cand: "candidates ecg sg rs ! j = (v, a + lj)"
    using j by (simp add: candidates_def v_def a_def seg_def lj_def rj_def)
  have lm: "length mv = length (maxval st)" by (simp add: mv_def)
  from refractory_ok[OF c' len', of fs rp] show ?thesis
    unfolding step at tk cand lm by blast
qed

lemma peak_fold_ok:
  assumes wf: "\<And>g. g \<in> set rs \<Longrightarrow> fst g \<le> snd g \<and> snd g < length ecg"
    and js: "\<And>j. j \<in> set js \<Longrightarrow> j < length rs"
    and len: "length (maxloc st) = length (maxval st)"
    and rem: "compt st + length js = length (maxval st)"
  shows "\<exists>st'. fold_err (peak_step ecg fs rp sg (map fst rs) (map snd rs)) js st = Inr st'
      \<and> length (maxloc st') = length (maxval st')
      \<and> compt st' = length (maxval st')
      \<and> retained st' = fold (push fs rp) (map (\<lambda>j. candidates ecg sg rs ! j) js) (retained st)"
  using js len rem
proof (induction js arbitrary: st)
  case Nil
  then show ?case by simp
next
  case (Cons j js)
  have j: "j < length rs" using Cons.prems(1) by simp
  have c: "compt st < length (maxval st)" using Cons.prems(3) by simp
  from peak_step_ok[OF j wf c Cons.prems(2), of fs rp sg]
  obtain st1 where st1: "peak_step ecg fs rp sg (map fst rs) (map snd rs) j st = Inr st1"
    "length (maxloc st1) = length (maxval st1)"
    "compt st1 + (length (maxval st) - compt st - 1) = length (maxval st1)"
    "retained st1 = push fs rp (candidates ecg sg rs ! j) (retained st)"
    by blast
  have rem1: "compt st1 + length js = length (maxval st1)"
    using st1(3) Cons.prems(3) by simp
  have "\<And>i. i \<in> set js \<Longrightarrow> i < length rs" using Cons.prems(1) by simp
  from Cons.IH[OF this st1(2) rem1] show ?case
    by (simp add: st1(1) st1(4))
qed

lemma peak_loop_ok:
  assumes wf: "\<And>g. g \<in> set rs \<Longrightarrow> fst g \<le> snd g \<and> snd g < length ecg"
  shows "\<exists>st. peak_loop ecg fs rp sg (map fst rs) (map snd rs) = Inr st
      \<and> maxloc st = map snd (consolidate fs rp (candidates ecg sg rs))"
proof -
  define st0 where "st0 = \<lparr>maxval = replicate (length rs) (0::real),
     maxloc = replicate (length rs) (0::nat), compt = 0\<rparr>"
  have "\<exists>st'. fold_err (peak_step ecg fs rp sg (map fst rs) (map snd rs)) [0..<length rs] st0 = Inr st'
      \<and> length (maxloc st') = length (maxval st')
      \<and> compt st' = length (maxval st')
      \<and> retained st' = fold (push fs rp) (map (\<lambda>j. candidates ecg sg rs ! j) [0..<length rs]) (retained st0)"
    by (rule peak_fold_ok[OF wf]) (simp_all add: st0_def)
  then obtain st where st: "fold_err (peak_step ecg fs rp sg (map fst rs) (map snd rs)) [0..<length rs] st0 = Inr st"
    "length (maxloc st) = length (maxval st)" "compt st = length (maxval st)"
    "retained st = fold (push fs rp) (map (\<lambda>j. candidates ecg sg rs ! j) [0..<length rs]) (retained st0)"
    by blast
  have "map (\<lambda>j. candidates ecg sg rs ! j) [0..<length rs] = candidates ecg sg rs"
    using map_nth[of "candidates ecg sg rs"] by simp
  moreover have "retained st0 = []" by (simp add: retained_def st0_def)
  ultimately have r: "retained st = consolidate fs rp (candidates ecg sg rs)"
    using st(4) by (simp add: consolidate_def)
  have "map snd (retained st) = maxloc st"
    unfolding retained_def using st(2,3) by simp
  with r have "maxloc st = map snd (consolidate fs rp (candidates ecg sg rs))" by simp
  moreover have "peak_loop ecg fs rp sg (map fst rs) (map snd rs) = Inr st"
    using st(1) by (simp add: peak_loop_def st0_def Let_def)
  ultimately show ?thesis by blast
qed

subsection \<open>The positions of largest absolute amplitude and the polarity\<close>

lemma loc_ok:
  assumes wf: "\<And>g. g \<in> set rs \<Longrightarrow> fst g \<le> snd g \<and> snd g < length ecg"
  shows "loc ecg (map fst rs) (map snd rs) fs = Inr (loc_of ecg rs)"
proof -
  have "map_err (\<lambda>j.
       bind_err (py_index (map fst rs) j) (\<lambda>lj.
       bind_err (py_index (map snd rs) j) (\<lambda>rj.
       bind_err (np_argmax (map abs (py_slice ecg lj (rj + 1)))) (\<lambda>a.
       Inr (a + lj))))) [0..<length rs]
     = Inr (map (\<lambda>j. loc_of ecg rs ! j) [0..<length rs])"
  proof (rule map_err_total)
    fix j assume "j \<in> set [0..<length rs]"
    then have j: "j < length rs" by simp
    then have "fst (rs ! j) \<le> snd (rs ! j) \<and> snd (rs ! j) < length ecg"
      using wf[of "rs ! j"] by simp
    then have "py_slice ecg (fst (rs ! j)) (snd (rs ! j) + 1) \<noteq> []"
      by (simp add: py_slice_nonempty)
    then show "bind_err (py_index (map fst rs) j) (\<lambda>lj.
       bind_err (py_index (map snd rs) j) (\<lambda>rj.
       bind_err (np_argmax (map abs (py_slice ecg lj (rj + 1)))) (\<lambda>a.
       Inr (a + lj)))) = Inr (loc_of ecg rs ! j)"
      using j by (simp add: py_index_def np_argmax_def loc_of_def)
  qed
  moreover have "map (\<lambda>j. loc_of ecg rs ! j) [0..<length rs] = loc_of ecg rs"
    using map_nth[of "loc_of ecg rs"] by (simp add: loc_of_def)
  ultimately show ?thesis by (simp add: loc_def nb_s_def)
qed

lemma loc_of_bounds:
  assumes wf: "\<And>g. g \<in> set rs \<Longrightarrow> fst g \<le> snd g \<and> snd g < length ecg"
    and "i \<in> set (loc_of ecg rs)"
  shows "i < length ecg"
proof -
  from assms(2) obtain g where g: "g \<in> set rs"
    and i: "i = first_index (Max (set (map abs (py_slice ecg (fst g) (snd g + 1)))))
                              (map abs (py_slice ecg (fst g) (snd g + 1))) + fst g"
    unfolding loc_of_def by auto
  define seg where "seg = map abs (py_slice ecg (fst g) (snd g + 1))"
  have b: "fst g \<le> snd g" "snd g < length ecg" using wf[OF g] by simp_all
  have ne: "seg \<noteq> []" unfolding seg_def using py_slice_nonempty[OF b] by simp
  then have "Max (set seg) \<in> set seg" by (simp add: Max_in)
  then have "first_index (Max (set seg)) seg < length seg" by (rule first_index_less)
  also have "length seg = Suc (snd g) - fst g" unfolding seg_def using length_py_slice[OF b] by simp
  finally show ?thesis using b unfolding i seg_def[symmetric] by arith
qed

lemma sign_ok:
  assumes wf: "\<And>g. g \<in> set rs \<Longrightarrow> fst g \<le> snd g \<and> snd g < length ecg"
  shows "sign ecg (loc_of ecg rs) = Inr (sign_of ecg rs)"
proof -
  have "np_take ecg (loc_of ecg rs) = Inr (map (\<lambda>i. ecg ! i) (loc_of ecg rs))"
    by (rule np_take_ok) (rule loc_of_bounds[OF wf])
  then show ?thesis by (simp add: sign_def sign_of_def)
qed

subsection \<open>The function as a composition of its stages\<close>

lemma length_final_mask [simp]: "length (final_mask m fs thr en) = length m"
  by (simp add: final_mask_def)

lemma regions_wf:
  assumes "mdfint ecg fs = Inr m" and "g \<in> set (regions m fs thr en)"
  shows "fst g \<le> snd g \<and> snd g < length ecg"
proof -
  from assms(2) obtain j where j: "j < length (runs (final_mask m fs thr en))"
    and g: "g = runs (final_mask m fs thr en) ! j"
    unfolding regions_def by (auto simp: in_set_conv_nth)
  have "snd g < length m" using runs_bounds(2)[OF j] unfolding g by simp
  moreover have "length m = length ecg - 1" using assms(1) by (rule mdfint_length)
  ultimately have "snd g < length ecg" by arith
  then show ?thesis using runs_bounds(1)[OF j] unfolding g by simp
qed

lemma regions_separated:
  assumes "Suc j < length (regions m fs thr en)"
  shows "snd (regions m fs thr en ! j) < fst (regions m fs thr en ! Suc j)"
  using assms unfolding regions_def by (rule runs_separated)

lemma calculate_jqrs_eq:
  assumes m: "mdfint ecg fs = Inr m" and en: "en_thres ecg m = Inr en"
  shows "calculate_jqrs ecg fs thr rp
       = Inr (map snd (consolidate fs rp
           (candidates ecg (sign_of ecg (regions m fs thr en)) (regions m fs thr en))))"
proof -
  define rs where "rs = regions m fs thr en"
  have "\<exists>m. mdfint ecg fs = Inr m" using m by blast
  then have w: "1 \<le> INT_NB_COEFF fs" unfolding mdfint_Inr_iff by simp
  have fs: "fs \<noteq> 0" using window_positive_rate[OF w] by simp
  have lm: "length m \<le> length ecg" using mdfint_length[OF m] by simp
  have sb: "search_back m fs thr en (length ecg) = Inr (final_mask m fs thr en)"
    unfolding final_mask_def by (rule search_back_ok[OF fs lm])
  have l: "left (final_mask m fs thr en) = map fst rs"
    and r: "right (final_mask m fs thr en) = map snd rs"
    by (simp_all add: left_runs right_runs rs_def regions_def)
  have wf: "\<And>g. g \<in> set rs \<Longrightarrow> fst g \<le> snd g \<and> snd g < length ecg"
    unfolding rs_def by (rule regions_wf[OF m])
  from peak_loop_ok[of rs ecg fs rp "sign_of ecg rs", OF wf]
  obtain st where st: "peak_loop ecg fs rp (sign_of ecg rs) (map fst rs) (map snd rs) = Inr st"
    "maxloc st = map snd (consolidate fs rp (candidates ecg (sign_of ecg rs) rs))"
    by blast
  have lo: "loc ecg (map fst rs) (map snd rs) fs = Inr (loc_of ecg rs)"
    by (rule loc_ok[OF wf])
  have sg: "sign ecg (loc_of ecg rs) = Inr (sign_of ecg rs)"
    by (rule sign_ok[OF wf])
  have "calculate_jqrs ecg fs thr rp
      = Inr (map snd (consolidate fs rp (candidates ecg (sign_of ecg rs) rs)))"
    by (simp add: calculate_jqrs_def m en sb l r lo sg st)
  then show ?thesis unfolding rs_def .
qed

lemma calculate_jqrs_error:
  "mdfint ecg fs = Inl e \<Longrightarrow> calculate_jqrs ecg fs thr rp = Inl e"
  "mdfint ecg fs = Inr m \<Longrightarrow> en_thres ecg m = Inl e \<Longrightarrow> calculate_jqrs ecg fs thr rp = Inl e"
  by (simp_all add: calculate_jqrs_def)

subsection \<open>What the refractory rule keeps\<close>

lemma push_cases:
  obtains (first) "rs = []" "push fs rp c rs = [c]"
  | (drop) "rs \<noteq> []" "real (snd c) - real (snd (last rs)) < fs * rp"
      "\<bar>fst c\<bar> < \<bar>fst (last rs)\<bar>" "push fs rp c rs = rs"
  | (replace) "rs \<noteq> []" "real (snd c) - real (snd (last rs)) < fs * rp"
      "\<bar>fst (last rs)\<bar> \<le> \<bar>fst c\<bar>" "push fs rp c rs = butlast rs @ [c]"
  | (append) "rs \<noteq> []" "fs * rp \<le> real (snd c) - real (snd (last rs))"
      "push fs rp c rs = rs @ [c]"
proof (cases "rs = []")
  case True
  then show ?thesis using first by (simp add: push_def)
next
  case ne: False
  show ?thesis
  proof (cases "real (snd c) - real (snd (last rs)) < fs * rp")
    case True
    show ?thesis
    proof (cases "\<bar>fst c\<bar> < \<bar>fst (last rs)\<bar>")
      case s: True
      then show ?thesis using drop ne True by (simp add: push_def)
    next
      case False
      then show ?thesis using replace ne True by (simp add: push_def)
    qed
  next
    case False
    then show ?thesis using append ne by (simp add: push_def)
  qed
qed

lemma push_props:
  assumes below: "\<And>x. x \<in> set rs \<Longrightarrow> snd x < snd c"
    and sorted: "sorted_wrt (<) (map snd rs)"
    and gaps: "successively (\<lambda>a b. fs * rp \<le> real b - real a) (map snd rs)"
  shows "set (push fs rp c rs) \<subseteq> insert c (set rs)"
    and "sorted_wrt (<) (map snd (push fs rp c rs))"
    and "successively (\<lambda>a b. fs * rp \<le> real b - real a) (map snd (push fs rp c rs))"
proof -
  let ?gap = "\<lambda>a b. fs * rp \<le> real b - real a"
  have bl: "set (butlast rs) \<subseteq> set rs" by (auto dest: in_set_butlastD)
  show "set (push fs rp c rs) \<subseteq> insert c (set rs)"
    using bl by (cases rule: push_cases[of rs fs rp c]) auto
  show "sorted_wrt (<) (map snd (push fs rp c rs))"
  proof (cases rule: push_cases[of rs fs rp c])
    case first
    then show ?thesis by simp
  next
    case drop
    then show ?thesis using sorted by simp
  next
    case replace
    have "sorted_wrt (<) (map snd (butlast rs))"
      using sorted replace(1) append_butlast_last_id[of rs]
      by (metis map_append sorted_wrt_append)
    then show ?thesis
      unfolding replace(4) using below bl by (auto simp: sorted_wrt_append)
  next
    case append
    then show ?thesis using sorted below by (auto simp: sorted_wrt_append)
  qed
  show "successively ?gap (map snd (push fs rp c rs))"
  proof (cases rule: push_cases[of rs fs rp c])
    case first
    then show ?thesis by simp
  next
    case drop
    then show ?thesis using gaps by simp
  next
    case replace
    have split: "map snd rs = map snd (butlast rs) @ [snd (last rs)]"
      using replace(1) append_butlast_last_id[of rs] by (metis list.simps(8,9) map_append)
    have g1: "successively ?gap (map snd (butlast rs))"
      using gaps unfolding split by (simp add: successively_append_iff)
    have g2: "?gap (last (map snd (butlast rs))) (snd c)" if ne: "butlast rs \<noteq> []"
    proof -
      have "?gap (last (map snd (butlast rs))) (snd (last rs))"
        using gaps ne unfolding split by (simp add: successively_append_iff)
      moreover have "snd (last rs) < snd c" using below[of "last rs"] replace(1) by simp
      ultimately show ?thesis by simp
    qed
    show ?thesis
      unfolding replace(4) using g1 g2 by (auto simp: successively_append_iff)
  next
    case append
    have "last (map snd rs) = snd (last rs)" using append(1) by (simp add: last_map)
    then show ?thesis
      unfolding append(3) using gaps append(1,2) by (auto simp: successively_append_iff)
  qed
qed

lemma fold_push_props:
  assumes "sorted_wrt (<) (map snd rs @ map snd cs)"
    and "successively (\<lambda>a b. fs * rp \<le> real b - real a) (map snd rs)"
  shows "set (fold (push fs rp) cs rs) \<subseteq> set rs \<union> set cs
    \<and> sorted_wrt (<) (map snd (fold (push fs rp) cs rs))
    \<and> successively (\<lambda>a b. fs * rp \<le> real b - real a) (map snd (fold (push fs rp) cs rs))"
  using assms
proof (induction cs arbitrary: rs)
  case Nil
  then show ?case by simp
next
  case (Cons c cs)
  have below: "\<And>x. x \<in> set rs \<Longrightarrow> snd x < snd c"
    and sorted: "sorted_wrt (<) (map snd rs)"
    and later: "\<And>y. y \<in> set cs \<Longrightarrow> snd c < snd y"
    and scs: "sorted_wrt (<) (map snd cs)"
    using Cons.prems(1) by (auto simp: sorted_wrt_append)
  note p = push_props[of rs c fs rp, OF below sorted Cons.prems(2)]
  have "snd x < snd y" if "x \<in> set (push fs rp c rs)" "y \<in> set cs" for x y
  proof (cases "x = c")
    case True
    then show ?thesis using later[OF that(2)] by simp
  next
    case False
    then have "x \<in> set rs" using p(1) that(1) by auto
    then show ?thesis using below[of x] later[OF that(2)] by simp
  qed
  then have "sorted_wrt (<) (map snd (push fs rp c rs) @ map snd cs)"
    using p(2) scs by (auto simp: sorted_wrt_append)
  from Cons.IH[OF this p(3)] p(1) show ?case by auto
qed

lemma consolidate_props:
  assumes "sorted_wrt (<) (map snd cs)"
  shows "set (consolidate fs rp cs) \<subseteq> set cs"
    and "sorted_wrt (<) (map snd (consolidate fs rp cs))"
    and "successively (\<lambda>a b. fs * rp \<le> real b - real a) (map snd (consolidate fs rp cs))"
  using fold_push_props[of "[]" cs fs rp] assms unfolding consolidate_def by simp_all

subsection \<open>The candidates lie inside their runs\<close>

lemma candidate_in_run:
  assumes j: "j < length rs"
    and wf: "\<And>g. g \<in> set rs \<Longrightarrow> fst g \<le> snd g \<and> snd g < length ecg"
  shows "fst (rs ! j) \<le> snd (candidates ecg sg rs ! j)"
    and "snd (candidates ecg sg rs ! j) \<le> snd (rs ! j)"
    and "ecg ! snd (candidates ecg sg rs ! j) = fst (candidates ecg sg rs ! j)"
proof -
  define g where "g = rs ! j"
  define seg where "seg = py_slice ecg (fst g) (Suc (snd g))"
  have b: "fst g \<le> snd g" "snd g < length ecg" using wf[of g] j by (simp_all add: g_def)
  have ne: "seg \<noteq> []" unfolding seg_def by (rule py_slice_nonempty[OF b])
  have c: "candidates ecg sg rs ! j = (fst (extremum sg seg), snd (extremum sg seg) + fst g)"
    using j by (simp add: candidates_def g_def seg_def)
  have a: "snd (extremum sg seg) < Suc (snd g) - fst g"
    using extremum_index(1)[OF ne, of sg] length_py_slice[OF b] by (simp add: seg_def)
  show "fst (rs ! j) \<le> snd (candidates ecg sg rs ! j)"
    unfolding c g_def[symmetric] by simp
  show "snd (candidates ecg sg rs ! j) \<le> snd (rs ! j)"
    unfolding c g_def[symmetric] using a by simp
  have "seg ! snd (extremum sg seg) = ecg ! (fst g + snd (extremum sg seg))"
    using py_slice_nth[OF b a] by (simp add: seg_def)
  then show "ecg ! snd (candidates ecg sg rs ! j) = fst (candidates ecg sg rs ! j)"
    unfolding c using extremum_index(2)[OF ne, of sg] by (simp add: add.commute)
qed

lemma candidates_sorted:
  assumes wf: "\<And>g. g \<in> set rs \<Longrightarrow> fst g \<le> snd g \<and> snd g < length ecg"
    and sep: "\<And>j. Suc j < length rs \<Longrightarrow> snd (rs ! j) < fst (rs ! Suc j)"
  shows "sorted_wrt (<) (map snd (candidates ecg sg rs))"
proof -
  have "successively (<) (map snd (candidates ecg sg rs))"
    unfolding successively_conv_nth
  proof (intro allI impI)
    fix i assume "Suc i < length (map snd (candidates ecg sg rs))"
    then have i: "Suc i < length rs" by simp
    have "snd (candidates ecg sg rs ! i) \<le> snd (rs ! i)"
      by (rule candidate_in_run(2)[OF _ wf]) (use i in simp)
    also have "\<dots> < fst (rs ! Suc i)" by (rule sep[OF i])
    also have "\<dots> \<le> snd (candidates ecg sg rs ! Suc i)"
      by (rule candidate_in_run(1)[OF i wf])
    finally show "map snd (candidates ecg sg rs) ! i < map snd (candidates ecg sg rs) ! Suc i"
      using i by simp
  qed
  then show ?thesis by (simp add: successively_conv_sorted_wrt)
qed

lemma candidates_in_signal:
  assumes wf: "\<And>g. g \<in> set rs \<Longrightarrow> fst g \<le> snd g \<and> snd g < length ecg"
    and "c \<in> set (candidates ecg sg rs)"
  shows "snd c < length ecg"
proof -
  from assms(2) obtain j where j: "j < length rs" and c: "c = candidates ecg sg rs ! j"
    by (auto simp: in_set_conv_nth)
  have "snd c \<le> snd (rs ! j)" unfolding c by (rule candidate_in_run(2)[OF j wf])
  also have "\<dots> < length ecg" using wf[of "rs ! j"] j by simp
  finally show ?thesis .
qed

subsection \<open>When the function returns\<close>

lemma np_round_half: "np_round (1 / 2) = 0"
  by (simp add: np_round_def)

lemma np_round_mono_one: "1 \<le> np_round x \<longleftrightarrow> 1 / 2 < x"
proof
  assume a: "1 \<le> np_round x"
  show "1 / 2 < x"
  proof (rule ccontr)
    assume "\<not> 1 / 2 < x"
    then have le: "x \<le> 1 / 2" by simp
    have "real_of_int (np_round x) \<le> x + 1 / 2" by (rule np_round_upper)
    with a le have "x = 1 / 2" by linarith
    with a np_round_half show False by simp
  qed
next
  assume "1 / 2 < x"
  then have "0 < x - 1 / 2" by simp
  also have "x - 1 / 2 \<le> real_of_int (np_round x)" by (rule np_round_lower)
  finally show "1 \<le> np_round x" by linarith
qed

lemma window_iff: "1 \<le> INT_NB_COEFF fs \<longleftrightarrow> 128 / 7 < fs"
  unfolding INT_NB_COEFF_def np_round_mono_one by (simp add: field_simps)

lemma calculate_jqrs_returns:
  assumes "1 \<le> INT_NB_COEFF fs" and "26 \<le> length ecg" and "last ecg \<noteq> sentinel"
  shows "\<exists>m en. mdfint ecg fs = Inr m \<and> en_thres ecg m = Inr en
     \<and> calculate_jqrs ecg fs thr rp
       = Inr (map snd (consolidate fs rp
           (candidates ecg (sign_of ecg (regions m fs thr en)) (regions m fs thr en))))"
proof -
  have "\<exists>m. mdfint ecg fs = Inr m" unfolding mdfint_Inr_iff using assms(1,2) by simp
  then obtain m where m: "mdfint ecg fs = Inr m" by blast
  have lm: "length m = length ecg - 1" using m by (rule mdfint_length)
  have ne: "ecg \<noteq> []" using assms(2) by auto
  have "en_thres ecg m = Inr (sort m ! ind_xs (length m))"
    unfolding en_thres_eq[OF lm ne] using assms(2,3) lm by simp
  with m calculate_jqrs_eq[OF m this] show ?thesis by blast
qed

lemma calculate_jqrs_fails:
  assumes "INT_NB_COEFF fs < 1 \<or> length ecg < 26 \<or> last ecg = sentinel"
  shows "\<exists>e. calculate_jqrs ecg fs thr rp = Inl e"
proof (cases "mdfint ecg fs")
  case (Inl e)
  then show ?thesis using calculate_jqrs_error(1) by blast
next
  case (Inr m)
  then have "\<exists>m. mdfint ecg fs = Inr m" by blast
  then have w: "1 \<le> INT_NB_COEFF fs" "2 \<le> length ecg" unfolding mdfint_Inr_iff by simp_all
  have lm: "length m = length ecg - 1" using Inr by (rule mdfint_length)
  have ne: "ecg \<noteq> []" using w(2) by auto
  have "last ecg = sentinel \<or> length m < 25" using assms w lm by arith
  then have "en_thres ecg m = Inl IndexError" unfolding en_thres_eq[OF lm ne] by simp
  then show ?thesis using calculate_jqrs_error(2)[OF Inr] by blast
qed

lemma short_signal_error:
  assumes "1 \<le> INT_NB_COEFF fs" and "2 \<le> length ecg" and "length ecg < 26"
  shows "calculate_jqrs ecg fs thr rp = Inl IndexError"
proof -
  have "\<exists>m. mdfint ecg fs = Inr m" unfolding mdfint_Inr_iff using assms(1,2) by simp
  then obtain m where m: "mdfint ecg fs = Inr m" by blast
  have lm: "length m = length ecg - 1" using m by (rule mdfint_length)
  have ne: "ecg \<noteq> []" using assms(2) by auto
  have "length m < 25" using assms(3) lm by arith
  then have "en_thres ecg m = Inl IndexError" unfolding en_thres_eq[OF lm ne] by simp
  then show ?thesis by (rule calculate_jqrs_error(2)[OF m])
qed

subsection \<open>An empty mask and a flat line\<close>

lemma no_index_no_gap:
  assumes "np_where (poss_reg m thr en) = []"
  shows "flagged_gaps m fs thr en = []"
  unfolding flagged_gaps_def Let_def assms
  by (simp add: RR_of_def indMissedBeat_def np_where_def)

lemma no_median_no_gap:
  assumes "medRRv (RR_of fs (np_where (poss_reg m thr en))) = None"
  shows "flagged_gaps m fs thr en = []"
proof -
  have "indMissedBeat (RR_of fs (np_where (poss_reg m thr en))) = []"
    unfolding indMissedBeat_def assms np_where_empty
    by (simp add: nan_mult_def gt_nan_def)
  then show ?thesis by (simp add: flagged_gaps_def Let_def)
qed

lemma final_mask_no_gap: "flagged_gaps m fs thr en = [] \<Longrightarrow> final_mask m fs thr en = poss_reg m thr en"
  by (simp add: final_mask_def)

lemma regions_empty_mask:
  assumes "np_where (poss_reg m thr en) = []"
  shows "regions m fs thr en = []"
proof -
  have f: "final_mask m fs thr en = poss_reg m thr en"
    by (rule final_mask_no_gap[OF no_index_no_gap[OF assms]])
  have "\<forall>b\<in>set (poss_reg m thr en). \<not> b"
    using assms unfolding np_where_empty by (auto simp: in_set_conv_nth)
  then show ?thesis unfolding regions_def f by (rule runs_all_false)
qed

lemma consolidate_nil [simp]: "consolidate fs rp [] = []"
  by (simp add: consolidate_def)

lemma candidates_nil [simp]: "candidates ecg sg [] = []"
  by (simp add: candidates_def)

lemma empty_mask_no_peak:
  assumes "mdfint ecg fs = Inr m" and "en_thres ecg m = Inr en"
    and "np_where (poss_reg m thr en) = []"
  shows "calculate_jqrs ecg fs thr rp = Inr []"
  unfolding calculate_jqrs_eq[OF assms(1,2)] regions_empty_mask[OF assms(3)] by simp

lemma np_diff_flat:
  fixes xs :: "real list"
  assumes "\<forall>x\<in>set xs. x = v" and "d \<in> set (np_diff xs)"
  shows "d = 0"
  using assms by (induction xs rule: np_diff.induct) auto

lemma lfilter_zero:
  assumes "lfilter b x = Inr y" and "\<forall>u\<in>set x. u = 0" and "v \<in> set y"
  shows "v = 0"
proof -
  from assms(1) have y: "y = map (\<lambda>k. sum_list (map (\<lambda>j. of_int (b ! j) * x ! (k - j))
                                        [0..<min (Suc k) (length b)])) [0..<length x]"
    by (auto simp: lfilter_def split: if_splits)
  from assms(3) obtain k where k: "k < length x"
    and v: "v = sum_list (map (\<lambda>j. of_int (b ! j) * x ! (k - j)) [0..<min (Suc k) (length b)])"
    unfolding y by auto
  have "map (\<lambda>j. real_of_int (b ! j) * x ! (k - j)) [0..<min (Suc k) (length b)]
      = map (\<lambda>j. 0) [0..<min (Suc k) (length b)]"
  proof (rule map_cong[OF refl])
    fix j assume "j \<in> set [0..<min (Suc k) (length b)]"
    have "x ! (k - j) \<in> set x" using k by simp
    then have "x ! (k - j) = 0" using assms(2) by blast
    then show "real_of_int (b ! j) * x ! (k - j) = 0" by simp
  qed
  then have "v = sum_list (map (\<lambda>j. 0::real) [0..<min (Suc k) (length b)])"
    unfolding v by (rule arg_cong)
  then show ?thesis by simp
qed

lemma mdfint_flat:
  assumes "mdfint ecg fs = Inr m" and "\<forall>x\<in>set ecg. x = c" and "v \<in> set m"
  shows "v = 0"
proof -
  from assms(1) have n: "\<not> (INT_NB_COEFF fs < 1 \<or> length ecg < 2)"
    by (auto simp: mdfint_eq)
  with assms(1) obtain y where y: "lfilter (replicate (nat (INT_NB_COEFF fs)) 1) (sqrecg ecg) = Inr y"
    and m: "m = np_roll y (- delay fs)"
    unfolding mdfint_eq by (auto simp: bind_err_eq_Inr)
  have vy: "v \<in> set y" using assms(3) set_np_roll_subset[of y "- delay fs"] unfolding m by blast
  have "\<forall>u\<in>set (sqrecg ecg). u = 0"
  proof
    fix u assume "u \<in> set (sqrecg ecg)"
    then obtain d where d: "d \<in> set (np_diff ecg)" "u = d * d"
      unfolding sqrecg_def np_square_def dffecg_def by auto
    with np_diff_flat[OF assms(2) d(1)] show "u = 0" by simp
  qed
  then show ?thesis by (rule lfilter_zero[OF y _ vy])
qed

lemma flat_line_no_peak:
  assumes m: "mdfint ecg fs = Inr m" and en: "en_thres ecg m = Inr en"
    and flat: "\<forall>x\<in>set ecg. x = c"
  shows "calculate_jqrs ecg fs thr rp = Inr []"
proof (rule empty_mask_no_peak[OF m en])
  have e0: "en = 0" using mdfint_flat[OF m flat en_thres_in_set[OF en]] .
  show "np_where (poss_reg m thr en) = []"
    unfolding np_where_empty
  proof (intro allI impI)
    fix i assume "i < length (poss_reg m thr en)"
    then have i: "i < length m" by simp
    then have "m ! i = 0" using mdfint_flat[OF m flat, of "m ! i"] by simp
    then show "\<not> poss_reg m thr en ! i"
      unfolding poss_reg_nth[OF i] e0 by simp
  qed
qed

subsection \<open>Scaling the signal by a positive constant, in exact arithmetic\<close>

text \<open>
  With the arithmetic read exactly, the envelope of a signal multiplied by \<open>c\<close> is the
  envelope multiplied by \<open>c * c\<close>, and every later comparison is between two quantities
  that scale alike. The lemmas of this section are about that reading only: in double
  precision the products and sums of the scaled signal round differently, and a
  comparison between two values that are equal or one rounding apart can change.
\<close>

lemma sort_scale:
  fixes xs :: "real list"
  assumes "0 < k"
  shows "sort (map (\<lambda>v. k * v) xs) = map (\<lambda>v. k * v) (sort xs)"
proof (rule properties_for_sort)
  show "mset (map (\<lambda>v. k * v) (sort xs)) = mset (map (\<lambda>v. k * v) xs)" by simp
  have "sorted_wrt (\<lambda>x y. k * x \<le> k * y) (sort xs)"
    by (rule sorted_wrt_mono_rel[of _ "(\<le>)"]) (use assms in simp_all)
  then show "sorted (map (\<lambda>v. k * v) (sort xs))" by (simp add: sorted_map)
qed

lemma poss_reg_scale:
  assumes "0 < k"
  shows "poss_reg (map (\<lambda>v. k * v) m) thr (k * en) = poss_reg m thr en"
proof -
  have "(thr * (k * en) < k * v) = (thr * en < v)" for v
  proof -
    have "thr * (k * en) = k * (thr * en)" by simp
    then show ?thesis using assms by (simp only: mult_less_cancel_left_pos)
  qed
  then show ?thesis by (simp add: poss_reg_def o_def)
qed

lemma rescan_scale:
  assumes "0 < k" and "length p \<le> length m"
  shows "rescan (map (\<lambda>v. k * v) m) thr (k * en) g p = rescan m thr en g p"
proof -
  have "(1 / 4 * thr * (k * en) < map (\<lambda>v. k * v) m ! j) = (1 / 4 * thr * en < m ! j)"
    if "j < length p" for j
  proof -
    have j: "j < length m" using that assms(2) by simp
    have "1 / 4 * thr * (k * en) = k * (1 / 4 * thr * en)" by simp
    then show ?thesis using assms(1) j by (simp only: nth_map mult_less_cancel_left_pos)
  qed
  then show ?thesis unfolding rescan_def by (intro map_cong refl) simp
qed

lemma fold_rescan_scale:
  assumes "0 < k" and "length p \<le> length m"
  shows "fold (rescan (map (\<lambda>v. k * v) m) thr (k * en)) gs p = fold (rescan m thr en) gs p"
  using assms(2)
proof (induction gs arbitrary: p)
  case Nil
  then show ?case by simp
next
  case (Cons g gs)
  have "length (rescan m thr en g p) \<le> length m" using Cons.prems by simp
  from Cons.IH[OF this] show ?case
    by (simp add: rescan_scale[OF assms(1) Cons.prems])
qed

lemma regions_scale:
  assumes "0 < k"
  shows "regions (map (\<lambda>v. k * v) m) fs thr (k * en) = regions m fs thr en"
proof -
  have g: "flagged_gaps (map (\<lambda>v. k * v) m) fs thr (k * en) = flagged_gaps m fs thr en"
    by (simp add: flagged_gaps_def poss_reg_scale[OF assms])
  have "final_mask (map (\<lambda>v. k * v) m) fs thr (k * en) = final_mask m fs thr en"
    unfolding final_mask_def g poss_reg_scale[OF assms]
    by (rule fold_rescan_scale[OF assms]) simp
  then show ?thesis by (simp add: regions_def)
qed

lemma Max_scale:
  fixes xs :: "real list"
  assumes "0 < c" and "xs \<noteq> []"
  shows "Max (set (map (\<lambda>x. c * x) xs)) = c * Max (set xs)"
proof -
  have "mono (\<lambda>x. c * x)" using assms(1) by (simp add: mono_def)
  from mono_Max_commute[OF this, of "set xs"] assms(2) show ?thesis by simp
qed

lemma Min_scale:
  fixes xs :: "real list"
  assumes "0 < c" and "xs \<noteq> []"
  shows "Min (set (map (\<lambda>x. c * x) xs)) = c * Min (set xs)"
proof -
  have "mono (\<lambda>x. c * x)" using assms(1) by (simp add: mono_def)
  from mono_Min_commute[OF this, of "set xs"] assms(2) show ?thesis by simp
qed

lemma first_index_scale:
  fixes xs :: "real list"
  assumes "0 < c"
  shows "first_index (c * v) (map (\<lambda>x. c * x) xs) = first_index v xs"
proof -
  have "((\<lambda>x. x \<noteq> c * v) \<circ> (\<lambda>x. c * x)) = (\<lambda>x. x \<noteq> v)"
    using assms by (auto simp: fun_eq_iff)
  then show ?thesis unfolding first_index_def takeWhile_map by simp
qed

lemma py_slice_map: "py_slice (map f xs) a b = map f (py_slice xs a b)"
  by (simp add: py_slice_def take_map drop_map)

lemma abs_scale:
  fixes xs :: "real list"
  assumes "0 < c"
  shows "map abs (map (\<lambda>x. c * x) xs) = map (\<lambda>x. c * x) (map abs xs)"
  using assms by (simp add: abs_mult)

lemma loc_of_scale:
  assumes "0 < c"
    and wf: "\<And>g. g \<in> set rs \<Longrightarrow> fst g \<le> snd g \<and> snd g < length ecg"
  shows "loc_of (map (\<lambda>x. c * x) ecg) rs = loc_of ecg rs"
  unfolding loc_of_def
proof (rule map_cong[OF refl])
  fix g assume g: "g \<in> set rs"
  define seg where "seg = map abs (py_slice ecg (fst g) (snd g + 1))"
  have "py_slice ecg (fst g) (Suc (snd g)) \<noteq> []"
    using wf[OF g] by (simp add: py_slice_nonempty)
  then have ne: "seg \<noteq> []" by (simp add: seg_def)
  have s: "map abs (py_slice (map (\<lambda>x. c * x) ecg) (fst g) (snd g + 1)) = map (\<lambda>x. c * x) seg"
    unfolding py_slice_map abs_scale[OF assms(1)] seg_def ..
  show "first_index (Max (set (map abs (py_slice (map (\<lambda>x. c * x) ecg) (fst g) (snd g + 1)))))
          (map abs (py_slice (map (\<lambda>x. c * x) ecg) (fst g) (snd g + 1))) + fst g
      = first_index (Max (set (map abs (py_slice ecg (fst g) (snd g + 1)))))
          (map abs (py_slice ecg (fst g) (snd g + 1))) + fst g"
    unfolding s seg_def[symmetric] Max_scale[OF assms(1) ne] first_index_scale[OF assms(1)] ..
qed

lemma np_median_scale:
  assumes "0 < c"
  shows "np_median (map (\<lambda>x. c * x) xs) = map_option (\<lambda>v. c * v) (np_median xs)"
proof (cases "xs = []")
  case True
  then show ?thesis by (simp add: np_median_def)
next
  case False
  then have n: "0 < length xs" by simp
  have i: "length xs div 2 < length (sort xs)" "length xs div 2 - 1 < length (sort xs)"
    using n by (simp, simp, arith)
  show ?thesis
    unfolding np_median_def Let_def sort_scale[OF assms]
    using n i by (simp add: distrib_left)
qed

lemma sign_of_scale:
  assumes "0 < c"
    and wf: "\<And>g. g \<in> set rs \<Longrightarrow> fst g \<le> snd g \<and> snd g < length ecg"
  shows "sign_of (map (\<lambda>x. c * x) ecg) rs = map_option (\<lambda>v. c * v) (sign_of ecg rs)"
proof -
  have "map (\<lambda>i. map (\<lambda>x. c * x) ecg ! i) (loc_of ecg rs)
      = map (\<lambda>x. c * x) (map (\<lambda>i. ecg ! i) (loc_of ecg rs))"
    unfolding map_map o_def
    by (rule map_cong[OF refl]) (simp add: loc_of_bounds[OF wf])
  moreover have "loc_of (map (\<lambda>x. c * x) ecg) rs = loc_of ecg rs"
    by (rule loc_of_scale[OF assms])
  ultimately show ?thesis
    unfolding sign_of_def by (simp only: np_median_scale[OF assms(1)])
qed

lemma nan_gt_scale:
  assumes "0 < c"
  shows "nan_gt (map_option (\<lambda>v. c * v) sg) 0 = nan_gt sg 0"
  using assms by (cases sg) (simp_all add: nan_gt_def zero_less_mult_iff)

lemma extremum_scale:
  assumes "0 < c" and "seg \<noteq> []"
  shows "extremum (map_option (\<lambda>v. c * v) sg) (map (\<lambda>x. c * x) seg)
       = (c * fst (extremum sg seg), snd (extremum sg seg))"
  unfolding extremum_def nan_gt_scale[OF assms(1)]
    Max_scale[OF assms] Min_scale[OF assms] first_index_scale[OF assms(1)]
  by simp

lemma candidates_scale:
  assumes "0 < c"
    and wf: "\<And>g. g \<in> set rs \<Longrightarrow> fst g \<le> snd g \<and> snd g < length ecg"
  shows "candidates (map (\<lambda>x. c * x) ecg) (map_option (\<lambda>v. c * v) sg) rs
       = map (\<lambda>x. (c * fst x, snd x)) (candidates ecg sg rs)"
  unfolding candidates_def map_map o_def
proof (rule map_cong[OF refl])
  fix g assume g: "g \<in> set rs"
  have ne: "py_slice ecg (fst g) (snd g + 1) \<noteq> []"
    using wf[OF g] py_slice_nonempty[of "fst g" "snd g" ecg] by simp
  show "(fst (extremum (map_option (\<lambda>v. c * v) sg) (py_slice (map (\<lambda>x. c * x) ecg) (fst g) (snd g + 1))),
         snd (extremum (map_option (\<lambda>v. c * v) sg) (py_slice (map (\<lambda>x. c * x) ecg) (fst g) (snd g + 1))) + fst g)
      = (c * fst (fst (extremum sg (py_slice ecg (fst g) (snd g + 1))),
                  snd (extremum sg (py_slice ecg (fst g) (snd g + 1))) + fst g),
         snd (fst (extremum sg (py_slice ecg (fst g) (snd g + 1))),
              snd (extremum sg (py_slice ecg (fst g) (snd g + 1))) + fst g))"
    unfolding py_slice_map extremum_scale[OF assms(1) ne] by simp
qed

lemma push_scale:
  assumes "0 < c"
  shows "push fs rp (c * fst x, snd x) (map (\<lambda>x. (c * fst x, snd x)) rs)
       = map (\<lambda>x. (c * fst x, snd x)) (push fs rp x rs)"
proof (cases "rs = []")
  case True
  then show ?thesis by (simp add: push_def)
next
  case False
  have a: "(\<bar>c * fst x\<bar> < \<bar>c * fst (last rs)\<bar>) = (\<bar>fst x\<bar> < \<bar>fst (last rs)\<bar>)"
    using assms by (simp add: abs_mult)
  show ?thesis
    using False by (simp add: push_def last_map a map_butlast)
qed

lemma fold_push_scale:
  assumes "0 < c"
  shows "fold (push fs rp) (map (\<lambda>x. (c * fst x, snd x)) cs) (map (\<lambda>x. (c * fst x, snd x)) rs)
       = map (\<lambda>x. (c * fst x, snd x)) (fold (push fs rp) cs rs)"
proof (induction cs arbitrary: rs)
  case Nil
  then show ?case by simp
next
  case (Cons x cs)
  show ?case using Cons.IH[of "push fs rp x rs"] by (simp add: push_scale[OF assms])
qed

lemma consolidate_scale:
  assumes "0 < c"
  shows "map snd (consolidate fs rp (map (\<lambda>x. (c * fst x, snd x)) cs))
       = map snd (consolidate fs rp cs)"
  unfolding consolidate_def using fold_push_scale[OF assms, of fs rp cs "[]"]
  by (simp add: o_def)

lemma calculate_jqrs_scale:
  assumes c: "0 < c" and l1: "last ecg \<noteq> sentinel" and l2: "c * last ecg \<noteq> sentinel"
  shows "calculate_jqrs (map (\<lambda>x. c * x) ecg) fs thr rp = calculate_jqrs ecg fs thr rp"
proof (cases "mdfint ecg fs")
  case (Inl e)
  then have "mdfint (map (\<lambda>x. c * x) ecg) fs = Inl e" by (simp add: mdfint_scale)
  with Inl show ?thesis by (simp add: calculate_jqrs_error(1))
next
  case (Inr m)
  define k where "k = c * c"
  have k: "0 < k" using c by (simp add: k_def)
  have m': "mdfint (map (\<lambda>x. c * x) ecg) fs = Inr (map (\<lambda>v. k * v) m)"
    using Inr by (simp add: mdfint_scale k_def)
  have "\<exists>m. mdfint ecg fs = Inr m" using Inr by blast
  then have two: "2 \<le> length ecg" unfolding mdfint_Inr_iff by simp
  then have ne: "ecg \<noteq> []" by auto
  have lm: "length m = length ecg - 1" using Inr by (rule mdfint_length)
  have lm': "length (map (\<lambda>v. k * v) m) = length (map (\<lambda>x. c * x) ecg) - 1" using lm by simp
  have ne': "map (\<lambda>x. c * x) ecg \<noteq> []" using ne by simp
  have la: "last (map (\<lambda>x. c * x) ecg) \<noteq> sentinel" using l2 ne by (simp add: last_map)
  show ?thesis
  proof (cases "length m < 25")
    case True
    have "en_thres ecg m = Inl IndexError" unfolding en_thres_eq[OF lm ne] using True by simp
    moreover have "en_thres (map (\<lambda>x. c * x) ecg) (map (\<lambda>v. k * v) m) = Inl IndexError"
      unfolding en_thres_eq[OF lm' ne'] using True by simp
    ultimately show ?thesis
      using calculate_jqrs_error(2)[OF Inr] calculate_jqrs_error(2)[OF m'] by simp
  next
    case False
    define en where "en = sort m ! ind_xs (length m)"
    have i: "ind_xs (length m) < length (sort m)" using False ind_xs_bound[of "length m"] by simp
    have en: "en_thres ecg m = Inr en"
      unfolding en_thres_eq[OF lm ne] en_def using False l1 by simp
    have "sort (map (\<lambda>v. k * v) m) ! ind_xs (length m) = k * en"
      unfolding sort_scale[OF k] en_def using i by simp
    then have en': "en_thres (map (\<lambda>x. c * x) ecg) (map (\<lambda>v. k * v) m) = Inr (k * en)"
      unfolding en_thres_eq[OF lm' ne'] using False la by simp
    define rs where "rs = regions m fs thr en"
    have wf: "\<And>g. g \<in> set rs \<Longrightarrow> fst g \<le> snd g \<and> snd g < length ecg"
      unfolding rs_def by (rule regions_wf[OF Inr])
    have r: "regions (map (\<lambda>v. k * v) m) fs thr (k * en) = rs"
      unfolding rs_def by (rule regions_scale[OF k])
    have s: "sign_of (map (\<lambda>x. c * x) ecg) rs = map_option (\<lambda>v. c * v) (sign_of ecg rs)"
      by (rule sign_of_scale[OF c wf])
    have cs: "candidates (map (\<lambda>x. c * x) ecg) (map_option (\<lambda>v. c * v) (sign_of ecg rs)) rs
       = map (\<lambda>x. (c * fst x, snd x)) (candidates ecg (sign_of ecg rs) rs)"
      by (rule candidates_scale[OF c wf])
    show ?thesis
      unfolding calculate_jqrs_eq[OF Inr en] calculate_jqrs_eq[OF m' en'] r
      unfolding rs_def[symmetric] s cs consolidate_scale[OF c] ..
  qed
qed

subsection \<open>The search back in double precision\<close>

lemma length_poss_reg_rounded [simp]: "length (poss_reg_rounded rnd m thr en) = length m"
  by (simp add: poss_reg_rounded_def)

lemma poss_reg_rounded_nth:
  "k < length m \<Longrightarrow> poss_reg_rounded rnd m thr en ! k = (rnd (thr * en) < m ! k)"
  by (simp add: poss_reg_rounded_def)

lemma length_RR_of_rounded [simp]: "length (RR_of_rounded rnd t ind) = length ind - 1"
  by (simp add: RR_of_rounded_def)

lemma RR_of_rounded_nth:
  assumes "Suc j < length ind"
  shows "RR_of_rounded rnd t ind ! j = rnd (t ! (ind ! Suc j) - t ! (ind ! j))"
proof -
  have j: "j < length (np_diff (map (\<lambda>i. t ! i) ind))" using assms by simp
  have "np_diff (map (\<lambda>i. t ! i) ind) ! j = map (\<lambda>i. t ! i) ind ! Suc j - map (\<lambda>i. t ! i) ind ! j"
    by (rule np_diff_nth) (use assms in simp)
  also have "\<dots> = t ! (ind ! Suc j) - t ! (ind ! j)" using assms by simp
  finally show ?thesis unfolding RR_of_rounded_def nth_map[OF j] by simp
qed

lemma RRv_rounded_ok:
  assumes "\<And>i. i \<in> set ind \<Longrightarrow> i < length t"
  shows "RRv_rounded rnd t ind = Inr (RR_of_rounded rnd t ind)"
proof -
  have "np_take t ind = Inr (map (\<lambda>i. t ! i) ind)"
    by (rule np_take_ok) (rule assms)
  then show ?thesis by (simp add: RRv_rounded_def RR_of_rounded_def)
qed

lemma indMissedBeat_rounded_flag:
  "j \<in> set (indMissedBeat_rounded rnd rr)
     \<longleftrightarrow> j < length rr
         \<and> (\<exists>med. np_median_rounded rnd (filter (\<lambda>r. double_0_01 < r) rr) = Some med
                \<and> rnd (3 / 2 * med) < rr ! j)"
  unfolding indMissedBeat_rounded_def set_np_where medRRv_rounded_def
  by (cases "np_median_rounded rnd (filter (\<lambda>r. double_0_01 < r) rr)")
     (auto simp: gt_nan_def)

lemma search_back_rounded_ok:
  assumes "length m \<le> length t"
  shows "search_back_rounded rnd t m thr en
       = Inr (fold (rescan_rounded rnd m thr en) (flagged_gaps_rounded rnd t m thr en)
                (poss_reg_rounded rnd m thr en))"
proof -
  define p where "p = poss_reg_rounded rnd m thr en"
  define ind where "ind = np_where p"
  define rr where "rr = RR_of_rounded rnd t ind"
  define missed where "missed = indMissedBeat_rounded rnd rr"
  have ind_lt: "i < length t" if "i \<in> set ind" for i
    using that assms unfolding ind_def set_np_where p_def by simp
  have rrv: "RRv_rounded rnd t ind = Inr rr"
    unfolding rr_def by (rule RRv_rounded_ok[OF ind_lt])
  have ms: "Suc j < length ind" if "j \<in> set missed" for j
  proof -
    from that have "j < length rr" unfolding missed_def indMissedBeat_rounded_flag by blast
    then show ?thesis unfolding rr_def by (simp add: less_diff_conv)
  qed
  have st: "np_take ind missed = Inr (map (\<lambda>i. ind ! i) missed)"
    by (rule np_take_ok) (use ms in force)
  have en: "np_take ind (map Suc missed) = Inr (map (\<lambda>i. ind ! i) (map Suc missed))"
    by (rule np_take_ok) (use ms in force)
  have "map (\<lambda>i. (map (\<lambda>i. ind ! i) missed ! i, map (\<lambda>i. ind ! i) (map Suc missed) ! i))
          [0..<length (map (\<lambda>i. ind ! i) missed)]
      = map (\<lambda>j. (ind ! j, ind ! Suc j)) missed"
    by (rule nth_equalityI) simp_all
  then have gs: "map (\<lambda>i. (map (\<lambda>i. ind ! i) missed ! i, map (\<lambda>i. ind ! i) (map Suc missed) ! i))
          [0..<length (map (\<lambda>i. ind ! i) missed)] = flagged_gaps_rounded rnd t m thr en"
    unfolding flagged_gaps_rounded_def Let_def missed_def rr_def ind_def p_def by simp
  show ?thesis
    unfolding search_back_rounded_def Let_def
    unfolding p_def[symmetric] ind_def[symmetric] rrv bind_err_Inr
    unfolding missed_def[symmetric] st en bind_err_Inr gs ..
qed

lemma length_rescan_rounded [simp]: "length (rescan_rounded rnd m thr en g p) = length p"
  by (simp add: rescan_rounded_def)

lemma length_fold_rescan_rounded [simp]:
  "length (fold (rescan_rounded rnd m thr en) gs p) = length p"
  by (induction gs arbitrary: p) simp_all

lemma fold_rescan_rounded_nth:
  assumes "k < length p"
  shows "fold (rescan_rounded rnd m thr en) gs p ! k
       = (if list_ex (\<lambda>g. fst g \<le> k \<and> k < snd g) gs
          then rnd (rnd (1 / 4 * thr) * en) < m ! k else p ! k)"
  using assms
proof (induction gs arbitrary: p)
  case Nil
  then show ?case by simp
next
  case (Cons g gs)
  have "rescan_rounded rnd m thr en g p ! k
      = (if fst g \<le> k \<and> k < snd g then rnd (rnd (1 / 4 * thr) * en) < m ! k else p ! k)"
    using Cons.prems by (simp add: rescan_rounded_def)
  moreover have "k < length (rescan_rounded rnd m thr en g p)" using Cons.prems by simp
  ultimately show ?case using Cons.IH[of "rescan_rounded rnd m thr en g p"] by simp
qed

text \<open>
  A sample above the primary level is above the lowered level. For a threshold
  coefficient that is not negative the lowered level is not above the primary one, by the
  monotonicity of the rounding alone. For a negative one the lowered level is not above
  zero, and it is below zero when the primary level is, unless the product underflows.
\<close>

lemma lowered_level_rounded:
  fixes rnd :: "real \<Rightarrow> real" and thr en v :: real
  assumes mono: "mono rnd" and zero: "rnd 0 = 0" and thr: "rnd thr = thr" and en: "0 \<le> en"
    and v: "0 \<le> v"
    and no_underflow: "rnd (thr * en) < 0 \<longrightarrow> rnd (rnd (1 / 4 * thr) * en) < 0"
    and above: "rnd (thr * en) < v"
  shows "rnd (rnd (1 / 4 * thr) * en) < v"
proof (cases "0 \<le> thr")
  case True
  then have "1 / 4 * thr \<le> thr" by simp
  then have "rnd (1 / 4 * thr) \<le> rnd thr" by (rule monoD[OF mono])
  then have "rnd (1 / 4 * thr) \<le> thr" unfolding thr .
  then have "rnd (1 / 4 * thr) * en \<le> thr * en" using en by (rule mult_right_mono)
  then have "rnd (rnd (1 / 4 * thr) * en) \<le> rnd (thr * en)" by (rule monoD[OF mono])
  then show ?thesis using above by linarith
next
  case False
  then have "1 / 4 * thr \<le> 0" by simp
  then have "rnd (1 / 4 * thr) \<le> rnd 0" by (rule monoD[OF mono])
  then have "rnd (1 / 4 * thr) \<le> 0" unfolding zero .
  then have "rnd (1 / 4 * thr) * en \<le> 0" using en by (rule mult_nonpos_nonneg)
  then have "rnd (rnd (1 / 4 * thr) * en) \<le> rnd 0" by (rule monoD[OF mono])
  then have le: "rnd (rnd (1 / 4 * thr) * en) \<le> 0" unfolding zero .
  show ?thesis
  proof (cases "v = 0")
    case True
    then have "rnd (thr * en) < 0" using above by simp
    then have "rnd (rnd (1 / 4 * thr) * en) < 0" using no_underflow by simp
    then show ?thesis using True by simp
  next
    case False
    then have "0 < v" using v by simp
    then show ?thesis using le by linarith
  qed
qed

lemma in_flagged_gaps_rounded:
  "g \<in> set (flagged_gaps_rounded rnd t m thr en) \<longleftrightarrow>
     (\<exists>j. Suc j < length (np_where (poss_reg_rounded rnd m thr en))
        \<and> (\<exists>med. np_median_rounded rnd (filter (\<lambda>r. double_0_01 < r)
                     (RR_of_rounded rnd t (np_where (poss_reg_rounded rnd m thr en)))) = Some med
               \<and> rnd (3 / 2 * med)
                   < RR_of_rounded rnd t (np_where (poss_reg_rounded rnd m thr en)) ! j)
        \<and> g = (np_where (poss_reg_rounded rnd m thr en) ! j,
               np_where (poss_reg_rounded rnd m thr en) ! Suc j))"
proof -
  have "(j < length ind - 1) = (Suc j < length ind)" for j and ind :: "nat list"
    by arith
  then show ?thesis
    unfolding flagged_gaps_rounded_def Let_def set_map image_iff indMissedBeat_rounded_flag
      length_RR_of_rounded Bex_def
    by auto
qed

lemma search_back_rounded_mask:
  fixes rnd :: "real \<Rightarrow> real" and t m :: "real list" and thr en :: real and k :: nat
  assumes mono: "mono rnd" and zero: "rnd 0 = 0" and thr: "rnd thr = thr" and en: "0 \<le> en"
    and nonneg: "\<And>v. v \<in> set m \<Longrightarrow> 0 \<le> v"
    and no_underflow: "rnd (thr * en) < 0 \<longrightarrow> rnd (rnd (1 / 4 * thr) * en) < 0"
    and k: "k < length m"
  defines "p \<equiv> poss_reg_rounded rnd m thr en"
  defines "ind \<equiv> np_where (poss_reg_rounded rnd m thr en)"
  defines "rr \<equiv> RR_of_rounded rnd t (np_where (poss_reg_rounded rnd m thr en))"
  defines "flag \<equiv> \<lambda>j. Suc j < length ind
      \<and> (\<exists>med. np_median_rounded rnd (filter (\<lambda>r. double_0_01 < r) rr) = Some med
             \<and> rnd (3 / 2 * med) < rr ! j)"
  shows "fold (rescan_rounded rnd m thr en) (flagged_gaps_rounded rnd t m thr en) p ! k
       = (rnd (thr * en) < m ! k
          \<or> (\<exists>j. flag j \<and> ind ! j < k \<and> k < ind ! Suc j \<and> rnd (rnd (1 / 4 * thr) * en) < m ! k))"
proof -
  have kp: "k < length p" using k by (simp add: p_def)
  have pk: "p ! k = (rnd (thr * en) < m ! k)"
    unfolding p_def by (rule poss_reg_rounded_nth[OF k])
  have ex: "list_ex (\<lambda>g. fst g \<le> k \<and> k < snd g) (flagged_gaps_rounded rnd t m thr en)
      = (\<exists>j. flag j \<and> ind ! j \<le> k \<and> k < ind ! Suc j)"
    unfolding list_ex_iff Bex_def in_flagged_gaps_rounded flag_def ind_def rr_def by auto
  have mk: "0 \<le> m ! k" using nonneg[of "m ! k"] k by simp
  show ?thesis
  proof (cases "\<exists>j. flag j \<and> ind ! j \<le> k \<and> k < ind ! Suc j")
    case True
    then obtain j where j: "flag j" "ind ! j \<le> k" "k < ind ! Suc j" by blast
    have "list_ex (\<lambda>g. fst g \<le> k \<and> k < snd g) (flagged_gaps_rounded rnd t m thr en)"
      using True unfolding ex .
    then have lhs: "fold (rescan_rounded rnd m thr en) (flagged_gaps_rounded rnd t m thr en) p ! k
        = (rnd (rnd (1 / 4 * thr) * en) < m ! k)"
      unfolding fold_rescan_rounded_nth[OF kp] by (simp only: if_True)
    show ?thesis
    proof (cases "ind ! j = k")
      case eq: True
      have "j < length ind" using j(1) unfolding flag_def by simp
      then have "p ! k" using np_where_nth_true[of j p] eq unfolding ind_def p_def by simp
      then have a: "rnd (thr * en) < m ! k" unfolding pk .
      have "rnd (rnd (1 / 4 * thr) * en) < m ! k"
        by (rule lowered_level_rounded[OF mono zero thr en mk no_underflow a])
      then show ?thesis unfolding lhs using a by blast
    next
      case False
      with j(2) have lt: "ind ! j < k" by simp
      have sj: "Suc j < length (np_where p)" using j(1) unfolding flag_def ind_def p_def by simp
      have "\<not> p ! k"
        by (rule np_where_between[OF sj]) (use lt j(3) in \<open>simp_all add: ind_def p_def\<close>)
      then have "\<not> rnd (thr * en) < m ! k" unfolding pk .
      then show ?thesis unfolding lhs using j(1) lt j(3) by blast
    qed
  next
    case False
    then have "\<not> list_ex (\<lambda>g. fst g \<le> k \<and> k < snd g) (flagged_gaps_rounded rnd t m thr en)"
      unfolding ex .
    then have lhs: "fold (rescan_rounded rnd m thr en) (flagged_gaps_rounded rnd t m thr en) p ! k
        = p ! k"
      unfolding fold_rescan_rounded_nth[OF kp] by (simp only: if_False)
    have "\<not> (\<exists>j. flag j \<and> ind ! j < k \<and> k < ind ! Suc j
        \<and> rnd (rnd (1 / 4 * thr) * en) < m ! k)"
      using False by (meson less_imp_le)
    then show ?thesis unfolding lhs pk by blast
  qed
qed

subsection \<open>The rounding of double precision is monotone\<close>

lemma np_round_of_int [simp]: "np_round (real_of_int n) = n"
  by (simp add: np_round_def)

lemma np_round_mono:
  assumes "x \<le> y"
  shows "np_round x \<le> np_round y"
proof (rule ccontr)
  assume "\<not> np_round x \<le> np_round y"
  then have "np_round y + 1 \<le> np_round x" by simp
  then have a: "real_of_int (np_round y) + 1 \<le> real_of_int (np_round x)" by linarith
  have "real_of_int (np_round x) \<le> x + 1 / 2" by (rule np_round_upper)
  moreover have "y - 1 / 2 \<le> real_of_int (np_round y)" by (rule np_round_lower)
  ultimately have "y \<le> x" using a by linarith
  with assms have "x = y" by simp
  with \<open>\<not> np_round x \<le> np_round y\<close> show False by simp
qed

lemma ilog2_bounds:
  assumes "0 < x"
  shows "2 powi ilog2 x \<le> x" and "x < 2 powi (ilog2 x + 1)"
proof -
  have "2 powi ilog2 x \<le> x \<and> x < 2 powi (ilog2 x + 1)"
  proof (cases "1 \<le> x")
    case True
    define n where "n = \<lfloor>x\<rfloor>"
    have n: "0 < n" using True unfolding n_def by linarith
    have e: "ilog2 x = bitlen n - 1" using True by (simp add: ilog2_def n_def)
    have b1: "1 \<le> bitlen n" using n by (simp add: bitlen_alt_def)
    from bitlen_bounds[OF n] have lo: "2 ^ nat (bitlen n - 1) \<le> n" and hi: "n < 2 ^ nat (bitlen n)"
      by simp_all
    have p1: "(2::real) powi (bitlen n - 1) = 2 ^ nat (bitlen n - 1)"
      using b1 by (simp add: power_int_def)
    have p2: "(2::real) powi (bitlen n - 1 + 1) = 2 ^ nat (bitlen n)"
      using b1 by (simp add: power_int_def)
    have "real_of_int (2 ^ nat (bitlen n - 1)) \<le> real_of_int n" using lo by (rule of_int_le_iff[THEN iffD2])
    then have l: "(2::real) ^ nat (bitlen n - 1) \<le> real_of_int n" by simp
    have "n + 1 \<le> 2 ^ nat (bitlen n)" using hi by simp
    then have "real_of_int (n + 1) \<le> real_of_int (2 ^ nat (bitlen n))" by (rule of_int_le_iff[THEN iffD2])
    then have h: "real_of_int n + 1 \<le> (2::real) ^ nat (bitlen n)" by simp
    have "real_of_int n \<le> x" "x < real_of_int n + 1" unfolding n_def by linarith+
    with l h show ?thesis unfolding e p1 p2 by linarith
  next
    case False
    define y where "y = 1 / x"
    have y1: "1 < y" using False assms by (simp add: y_def)
    define k where "k = \<lceil>y\<rceil> - 1"
    have k: "0 < k" using y1 unfolding k_def by linarith
    have e: "ilog2 x = - bitlen k" using False by (simp add: ilog2_def k_def y_def)
    have b1: "1 \<le> bitlen k" using k by (simp add: bitlen_alt_def)
    from bitlen_bounds[OF k] have lo: "2 ^ nat (bitlen k - 1) \<le> k" and hi: "k < 2 ^ nat (bitlen k)"
      by simp_all
    have "real_of_int (2 ^ nat (bitlen k - 1)) \<le> real_of_int k" using lo by (rule of_int_le_iff[THEN iffD2])
    then have l: "(2::real) ^ nat (bitlen k - 1) \<le> real_of_int k" by simp
    have "k + 1 \<le> 2 ^ nat (bitlen k)" using hi by simp
    then have "real_of_int (k + 1) \<le> real_of_int (2 ^ nat (bitlen k))" by (rule of_int_le_iff[THEN iffD2])
    then have h: "real_of_int k + 1 \<le> (2::real) ^ nat (bitlen k)" by simp
    have ky: "real_of_int k < y" "y \<le> real_of_int k + 1" unfolding k_def by linarith+
    have yl: "(2::real) ^ nat (bitlen k - 1) < y" using l ky by linarith
    have yh: "y \<le> (2::real) ^ nat (bitlen k)" using h ky by linarith
    have x: "x = 1 / y" unfolding y_def by simp
    have q: "(2::real) powi (bitlen k) = 2 ^ nat (bitlen k)"
      "(2::real) powi (bitlen k - 1) = 2 ^ nat (bitlen k - 1)"
      using b1 by (simp_all add: power_int_def)
    have p1: "(2::real) powi (- bitlen k) = 1 / 2 ^ nat (bitlen k)"
      unfolding power_int_minus_divide q ..
    have "- bitlen k + 1 = - (bitlen k - 1)" by simp
    then have p2: "(2::real) powi (- bitlen k + 1) = 1 / 2 ^ nat (bitlen k - 1)"
      unfolding power_int_minus_divide q by (simp only: power_int_minus_divide q)
    have ypos: "0 < y" using y1 by simp
    have A: "1 / 2 ^ nat (bitlen k) \<le> x"
      unfolding x using yh ypos by (simp add: field_simps)
    have B: "x < 1 / 2 ^ nat (bitlen k - 1)"
      unfolding x using yl ypos by (simp add: field_simps)
    show ?thesis unfolding e p1 p2 using A B by simp
  qed
  then show "2 powi ilog2 x \<le> x" and "x < 2 powi (ilog2 x + 1)" by simp_all
qed

lemma ilog2_mono:
  assumes "0 < x" and "x \<le> y"
  shows "ilog2 x \<le> ilog2 y"
proof (rule ccontr)
  assume "\<not> ilog2 x \<le> ilog2 y"
  then have "ilog2 y + 1 \<le> ilog2 x" by simp
  then have "(2::real) powi (ilog2 y + 1) \<le> 2 powi ilog2 x"
    by (rule power_int_increasing) simp
  also have "\<dots> \<le> x" by (rule ilog2_bounds(1)[OF assms(1)])
  also have "\<dots> \<le> y" by (rule assms(2))
  also have "\<dots> < 2 powi (ilog2 y + 1)" by (rule ilog2_bounds(2)) (use assms in simp)
  finally show False by simp
qed

lemma round_double_zero [simp]: "round_double 0 = 0"
  by (simp add: round_double_def)

lemma ulp_scale:
  fixes e :: int
  defines "u \<equiv> (2::real) powi (e - 52)"
  shows "0 < u" and "2 powi e = 2 ^ 52 * u" and "2 powi (e + 1) = 2 ^ 53 * u"
proof -
  show "0 < u" unfolding u_def by simp
  have "e = 52 + (e - 52)" by simp
  then have "(2::real) powi e = 2 powi (52 + (e - 52))" by (rule arg_cong)
  also have "\<dots> = 2 powi 52 * 2 powi (e - 52)" by (rule power_int_add) simp
  finally show "2 powi e = 2 ^ 52 * u" unfolding u_def by simp
  have "e + 1 = 53 + (e - 52)" by simp
  then have "(2::real) powi (e + 1) = 2 powi (53 + (e - 52))" by (rule arg_cong)
  also have "\<dots> = 2 powi 53 * 2 powi (e - 52)" by (rule power_int_add) simp
  finally show "2 powi (e + 1) = 2 ^ 53 * u" unfolding u_def by simp
qed

lemma round_double_pos_bounds:
  assumes "0 < x"
  shows "2 powi ilog2 x \<le> round_double x" and "round_double x \<le> 2 powi (ilog2 x + 1)"
proof -
  define u where "u = (2::real) powi (ilog2 x - 52)"
  have u: "0 < u" and lo: "2 powi ilog2 x = 2 ^ 52 * u" and hi: "2 powi (ilog2 x + 1) = 2 ^ 53 * u"
    unfolding u_def by (rule ulp_scale)+
  have rd: "round_double x = real_of_int (np_round (x / u)) * u"
    using assms by (simp add: round_double_def u_def Let_def)
  have "2 ^ 52 * u \<le> x" using ilog2_bounds(1)[OF assms] unfolding lo .
  then have "real_of_int (2 ^ 52) \<le> x / u" using u by (simp add: pos_le_divide_eq)
  then have "np_round (real_of_int (2 ^ 52)) \<le> np_round (x / u)" by (rule np_round_mono)
  then have "2 ^ 52 \<le> np_round (x / u)" unfolding np_round_of_int .
  then have "real_of_int (2 ^ 52) \<le> real_of_int (np_round (x / u))" by (rule of_int_le_iff[THEN iffD2])
  then have "2 ^ 52 * u \<le> real_of_int (np_round (x / u)) * u"
    using u by (simp add: mult_right_mono)
  then show "2 powi ilog2 x \<le> round_double x" unfolding lo rd .
  have "x < 2 ^ 53 * u" using ilog2_bounds(2)[OF assms] unfolding hi .
  then have "x / u \<le> real_of_int (2 ^ 53)" using u by (simp add: pos_divide_le_eq)
  then have "np_round (x / u) \<le> np_round (real_of_int (2 ^ 53))" by (rule np_round_mono)
  then have "np_round (x / u) \<le> 2 ^ 53" unfolding np_round_of_int .
  then have "real_of_int (np_round (x / u)) \<le> real_of_int (2 ^ 53)" by (rule of_int_le_iff[THEN iffD2])
  then have "real_of_int (np_round (x / u)) * u \<le> 2 ^ 53 * u"
    using u by (simp add: mult_right_mono)
  then show "round_double x \<le> 2 powi (ilog2 x + 1)" unfolding hi rd .
qed

lemma round_double_neg_bounds:
  assumes "x < 0"
  shows "- (2 powi (ilog2 (- x) + 1)) \<le> round_double x" and "round_double x \<le> - (2 powi ilog2 (- x))"
proof -
  define u where "u = (2::real) powi (ilog2 (- x) - 52)"
  have u: "0 < u" and lo: "2 powi ilog2 (- x) = 2 ^ 52 * u"
    and hi: "2 powi (ilog2 (- x) + 1) = 2 ^ 53 * u"
    unfolding u_def by (rule ulp_scale)+
  have pos: "0 < - x" using assms by simp
  have ax: "\<bar>x\<bar> = - x" using assms by simp
  have rd: "round_double x = real_of_int (np_round (x / u)) * u"
    using assms unfolding round_double_def ax u_def Let_def by simp
  have "2 ^ 52 * u \<le> - x" using ilog2_bounds(1)[OF pos] unfolding lo .
  then have "x \<le> - (2 ^ 52) * u" by simp
  then have "x / u \<le> real_of_int (- (2 ^ 52))" using u by (simp add: pos_divide_le_eq)
  then have "np_round (x / u) \<le> np_round (real_of_int (- (2 ^ 52)))" by (rule np_round_mono)
  then have "np_round (x / u) \<le> - (2 ^ 52)" unfolding np_round_of_int .
  then have "real_of_int (np_round (x / u)) \<le> real_of_int (- (2 ^ 52))"
    by (rule of_int_le_iff[THEN iffD2])
  then have "real_of_int (np_round (x / u)) * u \<le> real_of_int (- (2 ^ 52)) * u"
    using u by (simp only: mult_right_mono less_imp_le)
  then have "real_of_int (np_round (x / u)) * u \<le> - (2 ^ 52 * u)" by simp
  then show "round_double x \<le> - (2 powi ilog2 (- x))" unfolding lo rd .
  have "- x < 2 ^ 53 * u" using ilog2_bounds(2)[OF pos] unfolding hi .
  then have "- (2 ^ 53) * u \<le> x" by simp
  then have "real_of_int (- (2 ^ 53)) \<le> x / u" using u by (simp add: pos_le_divide_eq)
  then have "np_round (real_of_int (- (2 ^ 53))) \<le> np_round (x / u)" by (rule np_round_mono)
  then have "- (2 ^ 53) \<le> np_round (x / u)" unfolding np_round_of_int .
  then have "real_of_int (- (2 ^ 53)) \<le> real_of_int (np_round (x / u))"
    by (rule of_int_le_iff[THEN iffD2])
  then have "real_of_int (- (2 ^ 53)) * u \<le> real_of_int (np_round (x / u)) * u"
    using u by (simp only: mult_right_mono less_imp_le)
  then have "- (2 ^ 53 * u) \<le> real_of_int (np_round (x / u)) * u" by simp
  then show "- (2 powi (ilog2 (- x) + 1)) \<le> round_double x" unfolding hi rd .
qed

lemma round_double_pos: "0 < x \<Longrightarrow> 0 < round_double x"
proof -
  assume a: "0 < x"
  have "(0::real) < 2 powi ilog2 x" by simp
  also have "\<dots> \<le> round_double x" by (rule round_double_pos_bounds(1)[OF a])
  finally show ?thesis .
qed

lemma round_double_neg: "x < 0 \<Longrightarrow> round_double x < 0"
proof -
  assume a: "x < 0"
  have "round_double x \<le> - (2 powi ilog2 (- x))" by (rule round_double_neg_bounds(2)[OF a])
  also have "\<dots> < 0" by simp
  finally show ?thesis .
qed

lemma round_double_mono_pos:
  assumes "0 < x" and "x \<le> y"
  shows "round_double x \<le> round_double y"
proof -
  have y: "0 < y" using assms by simp
  have le: "ilog2 x \<le> ilog2 y" by (rule ilog2_mono[OF assms])
  show ?thesis
  proof (cases "ilog2 x = ilog2 y")
    case True
    define u where "u = (2::real) powi (ilog2 x - 52)"
    have u: "0 < u" unfolding u_def by simp
    have rx: "round_double x = real_of_int (np_round (x / u)) * u"
      using assms(1) by (simp add: round_double_def u_def Let_def)
    have ry: "round_double y = real_of_int (np_round (y / u)) * u"
      using y True by (simp add: round_double_def u_def Let_def)
    have "x / u \<le> y / u" using assms(2) u by (simp add: divide_right_mono)
    then have "np_round (x / u) \<le> np_round (y / u)" by (rule np_round_mono)
    then have "real_of_int (np_round (x / u)) \<le> real_of_int (np_round (y / u))"
      by (rule of_int_le_iff[THEN iffD2])
    then show ?thesis unfolding rx ry using u by (simp only: mult_right_mono less_imp_le)
  next
    case False
    with le have "ilog2 x + 1 \<le> ilog2 y" by simp
    then have p: "(2::real) powi (ilog2 x + 1) \<le> 2 powi ilog2 y"
      by (rule power_int_increasing) simp
    have "round_double x \<le> 2 powi (ilog2 x + 1)" by (rule round_double_pos_bounds(2)[OF assms(1)])
    also have "\<dots> \<le> 2 powi ilog2 y" by (rule p)
    also have "\<dots> \<le> round_double y" by (rule round_double_pos_bounds(1)[OF y])
    finally show ?thesis .
  qed
qed

lemma round_double_mono_neg:
  assumes "y < 0" and "x \<le> y"
  shows "round_double x \<le> round_double y"
proof -
  have x: "x < 0" using assms by simp
  have py: "0 < - y" using assms(1) by simp
  have yx: "- y \<le> - x" using assms(2) by simp
  have le: "ilog2 (- y) \<le> ilog2 (- x)" by (rule ilog2_mono[OF py yx])
  show ?thesis
  proof (cases "ilog2 (- y) = ilog2 (- x)")
    case True
    define u where "u = (2::real) powi (ilog2 (- x) - 52)"
    have u: "0 < u" unfolding u_def by simp
    have ax: "\<bar>x\<bar> = - x" "\<bar>y\<bar> = - y" using x assms(1) by simp_all
    have rx: "round_double x = real_of_int (np_round (x / u)) * u"
      using x unfolding round_double_def ax u_def Let_def by simp
    have ry: "round_double y = real_of_int (np_round (y / u)) * u"
      using assms(1) unfolding round_double_def ax u_def True Let_def by simp
    have "x / u \<le> y / u" using assms(2) u by (simp add: divide_right_mono)
    then have "np_round (x / u) \<le> np_round (y / u)" by (rule np_round_mono)
    then have "real_of_int (np_round (x / u)) \<le> real_of_int (np_round (y / u))"
      by (rule of_int_le_iff[THEN iffD2])
    then show ?thesis unfolding rx ry using u by (simp only: mult_right_mono less_imp_le)
  next
    case False
    with le have "ilog2 (- y) + 1 \<le> ilog2 (- x)" by simp
    then have p: "(2::real) powi (ilog2 (- y) + 1) \<le> 2 powi ilog2 (- x)"
      by (rule power_int_increasing) simp
    have "round_double x \<le> - (2 powi ilog2 (- x))" by (rule round_double_neg_bounds(2)[OF x])
    also have "\<dots> \<le> - (2 powi (ilog2 (- y) + 1))" using p by simp
    also have "\<dots> \<le> round_double y" by (rule round_double_neg_bounds(1)[OF assms(1)])
    finally show ?thesis .
  qed
qed

lemma round_double_mono: "mono round_double"
proof (rule monoI)
  fix x y :: real
  assume le: "x \<le> y"
  consider "0 < x" | "y < 0" | "x \<le> 0" "0 \<le> y" by linarith
  then show "round_double x \<le> round_double y"
  proof cases
    case 1
    then show ?thesis using le by (rule round_double_mono_pos)
  next
    case 2
    then show ?thesis using le by (rule round_double_mono_neg)
  next
    case 3
    have "round_double x \<le> 0"
    proof (cases "x = 0")
      case True
      then show ?thesis by simp
    next
      case False
      with 3(1) have "x < 0" by simp
      then show ?thesis using round_double_neg[of x] by simp
    qed
    moreover have "0 \<le> round_double y"
    proof (cases "y = 0")
      case True
      then show ?thesis by simp
    next
      case False
      with 3(2) have "0 < y" by simp
      then show ?thesis using round_double_pos[of y] by simp
    qed
    ultimately show ?thesis by simp
  qed
qed

section \<open>The claims\<close>

lemma mdfint_ecg30: "mdfint ecg30 256 = Inr mdfint30"
  unfolding ecg30_def mdfint30_def by code_simp

lemma mdfint_ecg10: "mdfint ecg10 256 = Inr [2, 2, 2, 2, 2, 0, 0, 1, 2]"
  unfolding ecg10_def by code_simp

lemma en_thres_ecg10: "en_thres ecg10 [2, 2, 2, 2, 2, 0, 0, 1, 2] = Inl IndexError"
  unfolding ecg10_def by code_simp

text \<open>
  C9 (as amended). Whenever the energy envelope \<open>m\<close> exists, the percentile index
  \<open>int(round(0.98 * N))\<close>, \<open>N\<close> the length of the sorted envelope, is below \<open>N\<close> exactly
  when the signal has at least 26 samples; for a shorter signal the index equals or
  exceeds \<open>N\<close> and the lookup is out of range.
\<close>

theorem C9_percentile_index_in_bounds:
  assumes "mdfint ecg fs = Inr m"
  shows "(ind_xs (length (sort m)) < length (sort m)) = (26 \<le> length ecg)"
proof -
  have "length (sort m) = length ecg - 1" using mdfint_length[OF assms] by simp
  then show ?thesis unfolding ind_xs_bound by arith
qed

theorem C9_percentile_index_in_bounds_witness:
  "mdfint ecg30 256 = Inr mdfint30 \<and> ind_xs (length (sort mdfint30)) < length (sort mdfint30)"
proof -
  have "26 \<le> length ecg30" by (simp add: ecg30_def)
  with C9_percentile_index_in_bounds[OF mdfint_ecg30] mdfint_ecg30 show ?thesis by simp
qed

text \<open>
  C9 fails as stated: ten samples at 256 Hz with threshold coefficient 0.8 satisfy the
  stated contract (the window is 7 samples), the sorted envelope has 9 values, the index
  is 9, and the function raises \<^verbatim>\<open>IndexError\<close>.
\<close>

theorem C9_counterexample:
  "(0::real) < 256 \<and> (0::real) < 8 / 10 \<and> INT_NB_COEFF 256 \<le> int (length ecg10)
   \<and> mdfint ecg10 256 = Inr [2, 2, 2, 2, 2, 0, 0, 1, 2]
   \<and> \<not> ind_xs (length (sort [2, 2, 2, 2, 2, 0, 0, 1, 2 :: real]))
          < length (sort [2, 2, 2, 2, 2, 0, 0, 1, 2 :: real])
   \<and> calculate_jqrs ecg10 256 (8 / 10) (1 / 4) = Inl IndexError"
proof -
  have w: "INT_NB_COEFF 256 = 7" by (simp add: INT_NB_COEFF_def np_round_def)
  have i: "\<not> ind_xs (length (sort [2, 2, 2, 2, 2, 0, 0, 1, 2 :: real]))
          < length (sort [2, 2, 2, 2, 2, 0, 0, 1, 2 :: real])"
    by (simp add: ind_xs_bound)
  have c: "calculate_jqrs ecg10 256 (8 / 10) (1 / 4) = Inl IndexError"
    by (simp add: calculate_jqrs_def mdfint_ecg10 en_thres_ecg10)
  show ?thesis using w i c mdfint_ecg10 by (simp add: ecg10_def)
qed

lemma no_sentinel_ecg30: "sentinel \<notin> set ecg30"
  by (simp add: ecg30_def sentinel_def)

lemma en_thres_ecg30: "en_thres ecg30 mdfint30 = Inr 73"
  unfolding ecg30_def mdfint30_def by code_simp

lemma mdfint_ecg52: "mdfint ecg52 256 = Inr mdfint52"
  unfolding ecg52_def mdfint52_def by code_simp

lemma en_thres_ecg52: "en_thres ecg52 mdfint52 = Inr 3"
  unfolding ecg52_def mdfint52_def by code_simp

lemma floor_rank_ecg52: "sort mdfint52 ! nat \<lfloor>98 / 100 * real (length mdfint52)\<rfloor> = 2"
  unfolding mdfint52_def by code_simp

lemma no_sentinel_ecg52: "sentinel \<notin> set ecg52"
  by (simp add: ecg52_def sentinel_def)

text \<open>
  C5 (as amended). For a signal without sentinel samples, so that no energy sample is
  excluded and \<open>N\<close> is the length of the envelope, the rank is
  \<open>int(round(0.98 * N))\<close>, rounded half to even: the reference energy is the sorted value
  at exactly that index, and \<^verbatim>\<open>IndexError\<close> when that index is not below \<open>N\<close>.
\<close>

theorem C5_rank_is_rounded:
  assumes "sentinel \<notin> set ecg" and "mdfint ecg fs = Inr m"
  shows "mdfint_temp_del ecg m = Inr m
     \<and> en_thres ecg m = py_index (sort m) (nat (np_round (98 / 100 * real (length m))))"
  using mdfint_temp_del_clean[OF assms(1), of m] by (simp add: en_thres_def ind_xs_def)

theorem C5_rank_is_rounded_witness:
  "sentinel \<notin> set ecg30 \<and> mdfint ecg30 256 = Inr mdfint30
   \<and> mdfint_temp_del ecg30 mdfint30 = Inr mdfint30
   \<and> py_index (sort mdfint30) (nat (np_round (98 / 100 * real (length mdfint30)))) = Inr 73"
  using C5_rank_is_rounded[OF no_sentinel_ecg30 mdfint_ecg30] no_sentinel_ecg30 mdfint_ecg30
    en_thres_ecg30 by simp

text \<open>
  C5 fails as stated: for 52 samples without a sentinel the envelope has 51 values, the
  reference energy is the sorted value at index 50, which is 3, and the value at index
  \<open>floor(0.98 * 51) = 49\<close> is 2.
\<close>

theorem C5_counterexample:
  "sentinel \<notin> set ecg52 \<and> mdfint ecg52 256 = Inr mdfint52
   \<and> mdfint_temp_del ecg52 mdfint52 = Inr mdfint52
   \<and> en_thres ecg52 mdfint52 = Inr 3
   \<and> sort mdfint52 ! nat \<lfloor>98 / 100 * real (length mdfint52)\<rfloor> = 2"
  using no_sentinel_ecg52 mdfint_ecg52 en_thres_ecg52 floor_rank_ecg52
    mdfint_temp_del_clean[OF no_sentinel_ecg52, of mdfint52] by simp

lemma mdfint_ecg27: "mdfint ecg27 256 = Inr mdfint27"
  unfolding ecg27_def mdfint27_def by code_simp

lemma en_thres_ecg27: "en_thres ecg27 mdfint27 = Inr 2147614724"
  unfolding ecg27_def mdfint27_def by code_simp

lemma excl_ecg27: "mdfint_temp_del ecg27 mdfint27 = Inr excl27"
  unfolding ecg27_def mdfint27_def excl27_def by code_simp

lemma rank_excl27: "sort excl27 ! ind_xs (length excl27) = 2147614723"
  unfolding excl27_def by code_simp

text \<open>
  C1, evaluated where the code departs from it. The sample at index 10 is the sentinel.
  The array \<^verbatim>\<open>mdfint_temp_\<close> without the envelope sample of that position is computed, its
  98th-percentile value is 2147614723, and the reference energy the function uses is
  2147614724, the envelope sample at the sentinel position itself.
\<close>

theorem C1_sentinel_not_excluded:
  "ecg27 ! 10 = sentinel \<and> mdfint ecg27 256 = Inr mdfint27
   \<and> mdfint27 ! 10 = 2147614724
   \<and> en_thres ecg27 mdfint27 = Inr 2147614724
   \<and> mdfint_temp_del ecg27 mdfint27 = Inr excl27
   \<and> sort excl27 ! ind_xs (length excl27) = 2147614723"
proof -
  have "ecg27 ! 10 = sentinel" by (simp add: ecg27_def sentinel_def)
  moreover have "mdfint27 ! 10 = 2147614724" by (simp add: mdfint27_def)
  ultimately show ?thesis
    using mdfint_ecg27 en_thres_ecg27 excl_ecg27 rank_excl27 by simp
qed

lemma mdfint_ecg38: "mdfint ecg38 110 = Inr mdfint38"
  unfolding ecg38_def mdfint38_def by code_simp

lemma en_thres_ecg38: "en_thres ecg38 mdfint38 = Inr 32"
  unfolding ecg38_def mdfint38_def by code_simp

lemma regions_ecg38:
  "regions mdfint38 110 (8 / 10) 32 = [(1, 2), (7, 9), (13, 14), (18, 20), (25, 26), (31, 32)]"
  unfolding mdfint38_def by code_simp

lemma sign_ecg38:
  "sign_of ecg38 [(1, 2), (7, 9), (13, 14), (18, 20), (25, 26), (31, 32)] = Some 0"
  unfolding ecg38_def by code_simp

lemma candidates_ecg38:
  "candidates ecg38 (Some 0) [(1, 2), (7, 9), (13, 14), (18, 20), (25, 26), (31, 32)]
     = [(0, 1), (0, 7), (0, 13), (0, 18), (0, 25), (0, 31)]"
  unfolding ecg38_def by code_simp

lemma consolidate_ecg38:
  "consolidate 110 (5 / 100) [(0, 1), (0, 7), (0, 13), (0, 18), (0, 25), (0, 31)]
     = [(0, 1), (0, 7), (0, 18), (0, 25), (0, 31)]"
  by code_simp

lemma jqrs_ecg38: "calculate_jqrs ecg38 110 (8 / 10) (5 / 100) = Inr [1, 7, 18, 25, 31]"
  unfolding calculate_jqrs_eq[OF mdfint_ecg38 en_thres_ecg38] regions_ecg38 sign_ecg38
    candidates_ecg38 consolidate_ecg38 by simp

text \<open>
  C4. Whenever \<^verbatim>\<open>calculate_jqrs\<close> returns, the positions it returns are strictly increasing
  and each of them is an index into the signal the function was given.
\<close>

theorem C4_increasing_indices:
  assumes "calculate_jqrs ecg fs thr rp = Inr qrs"
  shows "sorted_wrt (<) qrs \<and> (\<forall>i\<in>set qrs. i < length ecg)"
proof -
  obtain m where m: "mdfint ecg fs = Inr m"
    using assms calculate_jqrs_error(1)[of ecg fs _ thr rp] by (cases "mdfint ecg fs") auto
  obtain en where en: "en_thres ecg m = Inr en"
    using assms calculate_jqrs_error(2)[OF m, of _ thr rp] by (cases "en_thres ecg m") auto
  define rs where "rs = regions m fs thr en"
  define cs where "cs = candidates ecg (sign_of ecg rs) rs"
  have q: "qrs = map snd (consolidate fs rp cs)"
    using assms unfolding calculate_jqrs_eq[OF m en] cs_def rs_def by simp
  have wf: "\<And>g. g \<in> set rs \<Longrightarrow> fst g \<le> snd g \<and> snd g < length ecg"
    unfolding rs_def by (rule regions_wf[OF m])
  have sep: "\<And>j. Suc j < length rs \<Longrightarrow> snd (rs ! j) < fst (rs ! Suc j)"
    unfolding rs_def by (rule regions_separated)
  have so: "sorted_wrt (<) (map snd cs)"
    unfolding cs_def by (rule candidates_sorted[OF wf sep])
  have "i < length ecg" if "i \<in> set qrs" for i
  proof -
    from that obtain c where "c \<in> set (consolidate fs rp cs)" "i = snd c"
      unfolding q by auto
    with consolidate_props(1)[OF so, of fs rp] have "c \<in> set cs" "i = snd c" by auto
    then show ?thesis using candidates_in_signal[OF wf, where c = c and sg = "sign_of ecg rs"]
      by (simp add: cs_def)
  qed
  then show ?thesis using consolidate_props(2)[OF so, of fs rp] unfolding q by blast
qed

theorem C4_increasing_indices_witness:
  "calculate_jqrs ecg38 110 (8 / 10) (5 / 100) = Inr [1, 7, 18, 25, 31]
   \<and> sorted_wrt (<) [1, 7, 18, 25, 31 :: nat]
   \<and> list_all (\<lambda>i. i < length ecg38) [1, 7, 18, 25, 31]"
  using C4_increasing_indices[OF jqrs_ecg38] jqrs_ecg38 by (simp add: list_all_iff)






text \<open>
  C8 (as amended). With a window of at least one sample (a sampling frequency above
  128/7 Hz) and at least 26 samples, none of them the sentinel, the function returns a
  peak sequence and raises nothing; it returns the empty sequence when all samples are
  equal and when no envelope sample is above the threshold; and when no interval enters
  the median, so that the median is NaN, no gap is flagged and the mask stays as it is.
\<close>

theorem C8_degenerate_inputs:
  assumes "1 \<le> INT_NB_COEFF fs" and "26 \<le> length ecg" and "sentinel \<notin> set ecg"
  shows "(\<exists>qrs. calculate_jqrs ecg fs thr rp = Inr qrs)
    \<and> (list_all (\<lambda>x. x = hd ecg) ecg \<longrightarrow> calculate_jqrs ecg fs thr rp = Inr [])
    \<and> (\<exists>m en. mdfint ecg fs = Inr m \<and> en_thres ecg m = Inr en
         \<and> (np_where (poss_reg m thr en) = [] \<longrightarrow> calculate_jqrs ecg fs thr rp = Inr [])
         \<and> (medRRv (RR_of fs (np_where (poss_reg m thr en))) = None \<longrightarrow>
                search_back m fs thr en (length ecg) = Inr (poss_reg m thr en)))"
proof -
  have "ecg \<noteq> []" using assms(2) by auto
  then have "last ecg \<in> set ecg" by simp
  then have la: "last ecg \<noteq> sentinel" using assms(3) by auto
  from calculate_jqrs_returns[OF assms(1,2) la, of thr rp]
  obtain m en where m: "mdfint ecg fs = Inr m" and en: "en_thres ecg m = Inr en"
    and q: "\<exists>qrs. calculate_jqrs ecg fs thr rp = Inr qrs" by blast
  have flat: "calculate_jqrs ecg fs thr rp = Inr []" if "list_all (\<lambda>x. x = hd ecg) ecg"
    by (rule flat_line_no_peak[OF m en, of "hd ecg"]) (use that in \<open>simp add: list_all_iff\<close>)
  have empty: "calculate_jqrs ecg fs thr rp = Inr []" if "np_where (poss_reg m thr en) = []"
    by (rule empty_mask_no_peak[OF m en that])
  have fs: "fs \<noteq> 0" using window_positive_rate[OF assms(1)] by simp
  have lm: "length m \<le> length ecg" using mdfint_length[OF m] by simp
  have nan: "search_back m fs thr en (length ecg) = Inr (poss_reg m thr en)"
    if "medRRv (RR_of fs (np_where (poss_reg m thr en))) = None"
    unfolding search_back_ok[OF fs lm] no_median_no_gap[OF that] by simp
  have "\<exists>m en. mdfint ecg fs = Inr m \<and> en_thres ecg m = Inr en
         \<and> (np_where (poss_reg m thr en) = [] \<longrightarrow> calculate_jqrs ecg fs thr rp = Inr [])
         \<and> (medRRv (RR_of fs (np_where (poss_reg m thr en))) = None \<longrightarrow>
                search_back m fs thr en (length ecg) = Inr (poss_reg m thr en))"
  proof (intro exI[of _ m] exI[of _ en] conjI impI)
    show "mdfint ecg fs = Inr m" by (rule m)
    show "en_thres ecg m = Inr en" by (rule en)
  qed (rule empty, assumption, rule nan, assumption)
  with q flat show ?thesis by (intro conjI impI)
qed

lemma window_256: "INT_NB_COEFF 256 = 7"
  by (simp add: INT_NB_COEFF_def np_round_def)

theorem C8_degenerate_inputs_witness:
  "1 \<le> INT_NB_COEFF 256 \<and> 26 \<le> length flat30 \<and> sentinel \<notin> set flat30
   \<and> list_all (\<lambda>x. x = hd flat30) flat30
   \<and> calculate_jqrs flat30 256 (8 / 10) (1 / 4) = Inr []"
proof -
  have h: "1 \<le> INT_NB_COEFF 256" "26 \<le> length flat30" "sentinel \<notin> set flat30"
    by (simp_all add: window_256 flat30_def sentinel_def)
  have f: "list_all (\<lambda>x. x = hd flat30) flat30" by (simp add: flat30_def list_all_iff)
  from C8_degenerate_inputs[OF h, of "8 / 10" "1 / 4"] f h show ?thesis by blast
qed

lemma mdfint_flat10: "mdfint flat10 256 = Inr [0, 0, 0, 0, 0, 0, 0, 0, 0]"
  unfolding flat10_def by code_simp

text \<open>
  C8 fails as stated: ten equal samples at 256 Hz, with threshold coefficient 0.8 and
  refractory period 0.25 s, make the function raise \<^verbatim>\<open>IndexError\<close>.
\<close>

theorem C8_counterexample:
  "list_all (\<lambda>x. x = hd flat10) flat10 \<and> (0 :: real) < 256 \<and> (0 :: real) < 8 / 10
   \<and> (0 :: real) < 1 / 4 \<and> INT_NB_COEFF 256 \<le> int (length flat10)
   \<and> calculate_jqrs flat10 256 (8 / 10) (1 / 4) = Inl IndexError"
proof -
  have "calculate_jqrs flat10 256 (8 / 10) (1 / 4) = Inl IndexError"
    by (rule short_signal_error) (simp_all add: window_256 flat10_def)
  then show ?thesis by (simp add: window_256 flat10_def)
qed

lemma regions_ecg30_neg: "regions mdfint30 256 (- 1) 73 = [(0, 28)]"
  unfolding mdfint30_def by code_simp

lemma sign_ecg30_neg: "sign_of ecg30 [(0, 28)] = Some 6"
  unfolding ecg30_def by code_simp

lemma candidates_ecg30_neg: "candidates ecg30 (Some 6) [(0, 28)] = [(6, 20)]"
  unfolding ecg30_def by code_simp

lemma jqrs_ecg30_neg: "calculate_jqrs ecg30 256 (- 1) (1 / 4) = Inr [20]"
  unfolding calculate_jqrs_eq[OF mdfint_ecg30 en_thres_ecg30] regions_ecg30_neg sign_ecg30_neg
    candidates_ecg30_neg by (simp add: consolidate_def push_def)

lemma window_1200: "INT_NB_COEFF 1200 = 33"
  by (simp add: INT_NB_COEFF_def np_round_def)

text \<open>
  C2 (as amended). The constructor of \<^verbatim>\<open>FiducialPoints\<close> fails with \<^verbatim>\<open>WrongParameter\<close>,
  before anything else, for every sampling frequency that is not positive. A call of
  \<^verbatim>\<open>calculate_jqrs\<close> with such a frequency fails, whatever the write and read back of the
  record do: with the exception that they raise, or else with \<^verbatim>\<open>ValueError\<close>, the
  integration window being empty. The function fails for every array read back that has
  fewer than 26 samples. In these cases no peak sequence is returned. The threshold
  coefficient is not checked and the length is not compared with the window: with a
  window of at least one sample and at least 26 samples, none of them the sentinel, the
  function returns a peak sequence for every threshold coefficient, whether or not the
  signal is shorter than the window.
\<close>

theorem C2_parameter_errors:
  "(fs \<le> 0 \<longrightarrow> FiducialPoints_init check_shape signal fs n_pools = Inl WrongParameter)
   \<and> (fs \<le> 0 \<longrightarrow>
        calculate_jqrs_call read_back signal fs thr rp
          = (case read_back signal fs of Inl e \<Rightarrow> Inl e | Inr ecg' \<Rightarrow> Inl ValueError))
   \<and> (length ecg < 26 \<longrightarrow> (\<exists>e. calculate_jqrs ecg fs thr rp = Inl e))
   \<and> (1 \<le> INT_NB_COEFF fs \<and> 26 \<le> length ecg \<and> sentinel \<notin> set ecg \<longrightarrow>
        (\<exists>qrs. calculate_jqrs ecg fs thr rp = Inr qrs))"
proof (intro conjI impI)
  assume "fs \<le> 0"
  then show "FiducialPoints_init check_shape signal fs n_pools = Inl WrongParameter"
    by (simp add: FiducialPoints_init_def)
next
  assume "fs \<le> 0"
  then have w: "\<not> 1 \<le> INT_NB_COEFF fs" unfolding window_iff by simp
  show "calculate_jqrs_call read_back signal fs thr rp
          = (case read_back signal fs of Inl e \<Rightarrow> Inl e | Inr ecg' \<Rightarrow> Inl ValueError)"
  proof (cases "read_back signal fs")
    case (Inl e)
    then show ?thesis by (simp add: calculate_jqrs_call_def)
  next
    case (Inr ecg')
    have "mdfint ecg' fs = Inl ValueError" using w by (simp add: mdfint_eq)
    then have "calculate_jqrs ecg' fs thr rp = Inl ValueError"
      by (rule calculate_jqrs_error(1))
    then show ?thesis using Inr by (simp add: calculate_jqrs_call_def)
  qed
next
  assume "length ecg < 26"
  then show "\<exists>e. calculate_jqrs ecg fs thr rp = Inl e"
    using calculate_jqrs_fails[of fs ecg thr rp] by simp
next
  assume a: "1 \<le> INT_NB_COEFF fs \<and> 26 \<le> length ecg \<and> sentinel \<notin> set ecg"
  then have "ecg \<noteq> []" by auto
  then have "last ecg \<in> set ecg" by simp
  then have la: "last ecg \<noteq> sentinel" using a by auto
  from a have w: "1 \<le> INT_NB_COEFF fs" and l: "26 \<le> length ecg" by simp_all
  from calculate_jqrs_returns[OF w l la, of thr rp]
  show "\<exists>qrs. calculate_jqrs ecg fs thr rp = Inr qrs" by blast
qed

theorem C2_parameter_errors_witness:
  "(- 1 :: real) \<le> 0 \<and> (0 :: real) \<le> 0 \<and> length ecg10 < 26
   \<and> 1 \<le> INT_NB_COEFF 1200 \<and> 26 \<le> length flat30 \<and> sentinel \<notin> set flat30
   \<and> int (length flat30) < INT_NB_COEFF 1200
   \<and> FiducialPoints_init (\<lambda>s f. None) ecg30 (- 1) None = Inl WrongParameter
   \<and> calculate_jqrs_call uint_read_back ecg30 (- 1) (8 / 10) (1 / 4) = Inl OverflowError
   \<and> calculate_jqrs_call uint_read_back ecg30 0 (8 / 10) (1 / 4) = Inl ValueError
   \<and> (\<exists>e. calculate_jqrs ecg10 256 (8 / 10) (1 / 4) = Inl e)
   \<and> (\<exists>qrs. calculate_jqrs flat30 1200 (- 1) (1 / 4) = Inr qrs)"
proof -
  have s: "length ecg10 < 26" by (simp add: ecg10_def)
  have f: "1 \<le> INT_NB_COEFF 1200 \<and> 26 \<le> length flat30 \<and> sentinel \<notin> set flat30"
    by (simp add: window_1200 flat30_def sentinel_def)
  have l: "int (length flat30) < INT_NB_COEFF 1200" by (simp add: window_1200 flat30_def)
  show ?thesis
    using s f l
      C2_parameter_errors[where fs = "- 1" and check_shape = "\<lambda>s f. None" and signal = ecg30
        and n_pools = None and read_back = uint_read_back and thr = "8 / 10" and rp = "1 / 4"
        and ecg = ecg10]
      C2_parameter_errors[where fs = 0 and check_shape = "\<lambda>s f. None" and signal = ecg30
        and n_pools = None and read_back = uint_read_back and thr = "8 / 10" and rp = "1 / 4"
        and ecg = ecg10]
      C2_parameter_errors[where fs = 256 and check_shape = "\<lambda>s f. None" and signal = ecg10
        and n_pools = None and read_back = uint_read_back and thr = "8 / 10" and rp = "1 / 4"
        and ecg = ecg10]
      C2_parameter_errors[where fs = 1200 and check_shape = "\<lambda>s f. None" and signal = flat30
        and n_pools = None and read_back = uint_read_back and thr = "- 1" and rp = "1 / 4"
        and ecg = flat30]
    by (simp add: uint_read_back_def)
qed

text \<open>
  C2 fails as stated: with the threshold coefficient \<open>- 1\<close>, which is not positive, thirty
  samples at 256 Hz give the peak sequence \<open>[20]\<close> and no error.
\<close>

theorem C2_counterexample:
  "(- 1 :: real) \<le> 0 \<and> calculate_jqrs ecg30 256 (- 1) (1 / 4) = Inr [20]"
  using jqrs_ecg30_neg by simp

text \<open>
  C6. In double precision, with \<open>rnd\<close> the rounding of one operation and \<open>t\<close> the array of
  times: the intervals are the rounded differences of the times at neighbouring indices
  above the primary level \<open>rnd (thr * en_thres)\<close>, and the median is taken over the
  intervals greater than the double 0.01. The mask after the search back has the length of
  the envelope and is true at a position exactly when the envelope there is above the
  primary level, or the position lies strictly between the two bounding indices of an
  interval greater than 1.5 times the median, rounded, and the envelope there is above the
  lowered level \<open>rnd (rnd (0.25 * thr) * en_thres)\<close>. Of the rounding this uses that it is
  monotone, that it keeps zero and the double \<open>thr\<close>, and that the lowered level is negative
  when the primary level is; the envelope and the reference energy are not negative.
\<close>

theorem C6_search_back:
  fixes rnd :: "real \<Rightarrow> real" and t m :: "real list" and thr en :: real
  assumes "mono rnd" and "rnd 0 = 0" and "rnd thr = thr" and "0 \<le> en"
    and "\<forall>v\<in>set m. 0 \<le> v"
    and "rnd (thr * en) < 0 \<longrightarrow> rnd (rnd (1 / 4 * thr) * en) < 0"
    and "length m \<le> length t"
  shows "\<exists>rr p. RRv_rounded rnd t (np_where (poss_reg_rounded rnd m thr en)) = Inr rr
     \<and> search_back_rounded rnd t m thr en = Inr p
     \<and> length rr = length (np_where (poss_reg_rounded rnd m thr en)) - 1
     \<and> (\<forall>j. Suc j < length (np_where (poss_reg_rounded rnd m thr en)) \<longrightarrow>
           rr ! j = rnd (t ! (np_where (poss_reg_rounded rnd m thr en) ! Suc j)
                         - t ! (np_where (poss_reg_rounded rnd m thr en) ! j)))
     \<and> length p = length m
     \<and> (\<forall>k<length m.
           p ! k = (rnd (thr * en) < m ! k
             \<or> (\<exists>j. (Suc j < length (np_where (poss_reg_rounded rnd m thr en))
                       \<and> (\<exists>med. np_median_rounded rnd (filter (\<lambda>r. double_0_01 < r) rr) = Some med
                              \<and> rnd (3 / 2 * med) < rr ! j))
                    \<and> np_where (poss_reg_rounded rnd m thr en) ! j < k
                    \<and> k < np_where (poss_reg_rounded rnd m thr en) ! Suc j
                    \<and> rnd (rnd (1 / 4 * thr) * en) < m ! k)))"
proof -
  let ?ind = "np_where (poss_reg_rounded rnd m thr en)"
  let ?rr = "RR_of_rounded rnd t ?ind"
  let ?p = "fold (rescan_rounded rnd m thr en) (flagged_gaps_rounded rnd t m thr en)
              (poss_reg_rounded rnd m thr en)"
  have nonneg: "\<And>v. v \<in> set m \<Longrightarrow> 0 \<le> v" using assms(5) by blast
  have il: "i < length t" if "i \<in> set ?ind" for i
    using that assms(7) unfolding set_np_where by simp
  have c1: "RRv_rounded rnd t ?ind = Inr ?rr"
    by (rule RRv_rounded_ok[OF il])
  have c2: "search_back_rounded rnd t m thr en = Inr ?p"
    by (rule search_back_rounded_ok[OF assms(7)])
  have c3: "length ?rr = length ?ind - 1" by (rule length_RR_of_rounded)
  have c4: "\<forall>j. Suc j < length ?ind \<longrightarrow>
      ?rr ! j = rnd (t ! (?ind ! Suc j) - t ! (?ind ! j))"
    using RR_of_rounded_nth by blast
  have c5: "length ?p = length m" by simp
  have c6: "\<forall>k<length m.
      ?p ! k = (rnd (thr * en) < m ! k
         \<or> (\<exists>j. (Suc j < length ?ind
                   \<and> (\<exists>med. np_median_rounded rnd (filter (\<lambda>r. double_0_01 < r) ?rr) = Some med
                          \<and> rnd (3 / 2 * med) < ?rr ! j))
                \<and> ?ind ! j < k \<and> k < ?ind ! Suc j \<and> rnd (rnd (1 / 4 * thr) * en) < m ! k))"
  proof (intro allI impI)
    fix k assume k: "k < length m"
    show "?p ! k = (rnd (thr * en) < m ! k
         \<or> (\<exists>j. (Suc j < length ?ind
                   \<and> (\<exists>med. np_median_rounded rnd (filter (\<lambda>r. double_0_01 < r) ?rr) = Some med
                          \<and> rnd (3 / 2 * med) < ?rr ! j))
                \<and> ?ind ! j < k \<and> k < ?ind ! Suc j \<and> rnd (rnd (1 / 4 * thr) * en) < m ! k))"
      by (rule search_back_rounded_mask[OF assms(1,2,3,4) nonneg assms(6) k])
  qed
  show ?thesis
    apply (rule exI[of _ ?rr])
    apply (rule exI[of _ ?p])
    apply (rule conjI[OF c1])
    apply (rule conjI[OF c2])
    apply (rule conjI[OF c3])
    apply (rule conjI[OF c4])
    apply (rule conjI[OF c5])
    apply (rule c6)
    done
qed

lemma double_of_0_01: "round_double (1 / 100) = double_0_01"
  unfolding double_0_01_def by code_simp

lemma double_of_0_8: "round_double (8 / 10) = double_0_8"
  unfolding double_0_8_def by code_simp

lemma tm20_doubles:
  "tm20 = map (\<lambda>i. round_double (double_0_01 + round_double (real i * double_0_01))) [0..<20]"
  unfolding tm20_def double_0_01_def by code_simp

lemma levels_mdfint19:
  "round_double (double_0_8 * 10) = 8" "round_double (round_double (1 / 4 * double_0_8) * 10) = 2"
  unfolding double_0_8_def by code_simp+

lemma above_mdfint19:
  "np_where (poss_reg_rounded round_double mdfint19 double_0_8 10) = [9, 10, 17, 18]"
  unfolding poss_reg_rounded_def levels_mdfint19 mdfint19_def by code_simp

lemma RR_mdfint19:
  "RR_of_rounded round_double tm20 [9, 10, 17, 18]
     = [45035996273705 / 2 ^ 52, 5044031582654957 / 2 ^ 56, 360287970189639 / 2 ^ 55]"
  unfolding tm20_def by code_simp

lemma median_mdfint19:
  "np_median_rounded round_double (filter (\<lambda>r. double_0_01 < r)
       [45035996273705 / 2 ^ 52, 5044031582654957 / 2 ^ 56, 360287970189639 / 2 ^ 55])
     = Some (5764607523034237 / 2 ^ 57)"
  unfolding double_0_01_def by code_simp

lemma final_mask_mdfint19:
  "fold (rescan_rounded round_double mdfint19 double_0_8 10)
        (flagged_gaps_rounded round_double tm20 mdfint19 double_0_8 10)
        (poss_reg_rounded round_double mdfint19 double_0_8 10)
     = [False, False, False, False, False, False, False, False, False, True, True, True,
        False, False, False, False, True, True, True]"
  unfolding mdfint19_def tm20_def double_0_8_def by code_simp

lemma search_back_mdfint19:
  "search_back_rounded round_double tm20 mdfint19 double_0_8 10
     = Inr (fold (rescan_rounded round_double mdfint19 double_0_8 10)
              (flagged_gaps_rounded round_double tm20 mdfint19 double_0_8 10)
              (poss_reg_rounded round_double mdfint19 double_0_8 10))"
  by (rule search_back_rounded_ok) (simp add: mdfint19_def tm20_def)

theorem C6_search_back_witness:
  "mono round_double \<and> round_double 0 = 0 \<and> round_double double_0_8 = double_0_8
   \<and> (0 :: real) \<le> 10 \<and> list_all (\<lambda>v. 0 \<le> v) mdfint19
   \<and> \<not> round_double (double_0_8 * 10) < 0 \<and> length mdfint19 \<le> length tm20
   \<and> np_where (poss_reg_rounded round_double mdfint19 double_0_8 10) = [9, 10, 17, 18]
   \<and> (\<exists>rr p. RRv_rounded round_double tm20 [9, 10, 17, 18] = Inr rr
        \<and> rr ! 0 = round_double (tm20 ! 10 - tm20 ! 9)
        \<and> rr ! 0 = 45035996273705 / 2 ^ 52 \<and> double_0_01 < rr ! 0
        \<and> np_median_rounded round_double (filter (\<lambda>r. double_0_01 < r) rr)
             = Some (5764607523034237 / 2 ^ 57)
        \<and> search_back_rounded round_double tm20 mdfint19 double_0_8 10 = Inr p
        \<and> length p = length mdfint19
        \<and> p ! 11 \<and> p ! 16 \<and> \<not> p ! 12 \<and> \<not> round_double (double_0_8 * 10) < mdfint19 ! 11)"
proof -
  have h1: "mono round_double" by (rule round_double_mono)
  have h2: "round_double 0 = 0" by simp
  have h3: "round_double double_0_8 = double_0_8" unfolding double_0_8_def by code_simp
  have h4: "(0 :: real) \<le> 10" by simp
  have h5: "\<forall>v\<in>set mdfint19. 0 \<le> v" by (simp add: mdfint19_def)
  have n6: "\<not> round_double (double_0_8 * 10) < 0" unfolding levels_mdfint19 by simp
  then have h6: "round_double (double_0_8 * 10) < 0
      \<longrightarrow> round_double (round_double (1 / 4 * double_0_8) * 10) < 0" by simp
  have h7: "length mdfint19 \<le> length tm20" by (simp add: mdfint19_def tm20_def)
  from C6_search_back[OF h1 h2 h3 h4 h5 h6 h7]
  obtain rr p where rr: "RRv_rounded round_double tm20 [9, 10, 17, 18] = Inr rr"
    and p: "search_back_rounded round_double tm20 mdfint19 double_0_8 10 = Inr p"
    and d: "\<forall>j. Suc j < length [9, 10, 17, 18 :: nat] \<longrightarrow>
              rr ! j = round_double (tm20 ! ([9, 10, 17, 18] ! Suc j) - tm20 ! ([9, 10, 17, 18] ! j))"
    and lp: "length p = length mdfint19"
    unfolding above_mdfint19 by auto
  have r0: "rr ! 0 = round_double (tm20 ! 10 - tm20 ! 9)" using d by simp
  have "RRv_rounded round_double tm20 [9, 10, 17, 18]
      = Inr (RR_of_rounded round_double tm20 [9, 10, 17, 18])"
    by (rule RRv_rounded_ok) (auto simp: tm20_def)
  then have rv: "rr = [45035996273705 / 2 ^ 52, 5044031582654957 / 2 ^ 56,
      360287970189639 / 2 ^ 55]"
    using rr unfolding RR_mdfint19 by simp
  have r1: "rr ! 0 = 45035996273705 / 2 ^ 52" unfolding rv by simp
  have g: "double_0_01 < rr ! 0" unfolding r1 double_0_01_def by simp
  have md: "np_median_rounded round_double (filter (\<lambda>r. double_0_01 < r) rr)
      = Some (5764607523034237 / 2 ^ 57)"
    unfolding rv by (rule median_mdfint19)
  have "p = [False, False, False, False, False, False, False, False, False, True, True, True,
        False, False, False, False, True, True, True]"
    using p unfolding search_back_mdfint19 final_mask_mdfint19 by simp
  then have m: "p ! 11 \<and> p ! 16 \<and> \<not> p ! 12" by simp
  have n: "\<not> round_double (double_0_8 * 10) < mdfint19 ! 11"
    unfolding levels_mdfint19 by (simp add: mdfint19_def)
  have l5: "list_all (\<lambda>v. 0 \<le> v) mdfint19" using h5 by (simp add: list_all_iff)
  have ex: "\<exists>rr p. RRv_rounded round_double tm20 [9, 10, 17, 18] = Inr rr
        \<and> rr ! 0 = round_double (tm20 ! 10 - tm20 ! 9)
        \<and> rr ! 0 = 45035996273705 / 2 ^ 52 \<and> double_0_01 < rr ! 0
        \<and> np_median_rounded round_double (filter (\<lambda>r. double_0_01 < r) rr)
             = Some (5764607523034237 / 2 ^ 57)
        \<and> search_back_rounded round_double tm20 mdfint19 double_0_8 10 = Inr p
        \<and> length p = length mdfint19
        \<and> p ! 11 \<and> p ! 16 \<and> \<not> p ! 12 \<and> \<not> round_double (double_0_8 * 10) < mdfint19 ! 11"
    apply (rule exI[of _ rr])
    apply (rule exI[of _ p])
    using rr r0 r1 g md p lp m n apply blast
    done
  from h1 h2 h3 h4 l5 n6 h7 above_mdfint19 ex show ?thesis by blast
qed

end
